theory Spec2Isabelle
  imports Main "HOL-Library.Multiset"
begin

section \<open>Go primitives used by package rp\<close>

text \<open>
  \<open>time.Duration\<close> is a count of nanoseconds; a \<open>time.Time\<close> is modelled as the number
  of nanoseconds since the zero Time, so that \<open>IsZero\<close> is a comparison with 0.
  \<open>Time.Sub\<close> saturates at the largest and smallest Duration, as Go's does; that is what
  \<open>time.Since\<close> of the zero Time relies on.  Go's \<open>int\<close> (64 bits) and \<open>Duration\<close> (an
  \<open>int64\<close>) are modelled as \<open>int\<close>, and every addition and subtraction the code does on
  them is wrapped to 64 bits by \<open>int64\<close>, as the machine does.
\<close>

type_synonym Duration = int
type_synonym Time = int

definition int64 :: "int \<Rightarrow> int" where
  "int64 x = (x + 9223372036854775808) mod 18446744073709551616 - 9223372036854775808"

definition maxDuration :: Duration where
  "maxDuration = 9223372036854775807"

definition minDuration :: Duration where
  "minDuration = - 9223372036854775808"

definition Hour :: Duration where
  "Hour = 3600000000000"

definition Millisecond :: Duration where
  "Millisecond = 1000000"

definition IsZero :: "Time \<Rightarrow> bool" where
  "IsZero t \<longleftrightarrow> t = 0"

definition Sub :: "Time \<Rightarrow> Time \<Rightarrow> Duration" where
  "Sub t u = (let d = t - u in
     if d > maxDuration then maxDuration else if d < minDuration then minDuration else d)"

definition Since :: "Time \<Rightarrow> Time \<Rightarrow> Duration" where
  "Since current t = Sub current t"

text \<open>
  A buffered \<open>chan bool\<close>: its capacity and the values waiting in it.  A send on a full
  channel and a receive on an empty one do not complete (\<open>None\<close>): the goroutine blocks.
\<close>

record chan =
  cap :: nat
  buf :: "bool list"

definition make_chan :: "nat \<Rightarrow> chan" where
  "make_chan n = \<lparr>cap = n, buf = []\<rparr>"

definition send :: "chan \<Rightarrow> bool \<Rightarrow> chan option" where
  "send c v = (if length (buf c) < cap c then Some (c\<lparr>buf := buf c @ [v]\<rparr>) else None)"

definition recv :: "chan \<Rightarrow> (bool \<times> chan) option" where
  "recv c = (case buf c of [] \<Rightarrow> None | v # vs \<Rightarrow> Some (v, c\<lparr>buf := vs\<rparr>))"

text \<open>What a call does to its goroutine: it returns a value, or it is left blocked at a
  channel operation (holding whatever mutex it had locked).\<close>

datatype 'a outcome = Return 'a | Blocked

section \<open>request.go: request and Receipt\<close>

type_synonym Receipt = string

text \<open>Requests are shared through pointers (the \<open>requests\<close> map, the \<open>pending\<close> slice and
  the watchdog goroutine all hold \<open>*request\<close>), so they live in a heap and are named by
  address.  \<open>mu_r\<close> is the request's mutex: \<open>True\<close> while a blocked method holds it.\<close>

type_synonym addr = nat

record request =
  id_r :: Receipt
  owner :: string
  numTokens :: int
  grantedCh :: chan
  releaseCh :: chan
  touchCh :: chan
  autoRelease :: Duration
  active :: bool
  done_r :: bool
  mu_r :: bool

text \<open>The methods below run with the request's mutex acquired (the caller checks that it
  is free).  On \<open>Return\<close> the deferred unlock has run; on \<open>Blocked\<close> the mutex stays held
  and the matching \<open>_resume\<close> function completes the channel operation later.\<close>

definition waitUntilGranted :: "request \<Rightarrow> bool outcome \<times> request" where
  "waitUntilGranted r =
     (if active r \<or> done_r r then (Return False, r)
      else let r1 = r\<lparr>active := True\<rparr> in
        (case recv (grantedCh r1) of
           None \<Rightarrow> (Blocked, r1\<lparr>mu_r := True\<rparr>)
         | Some (v, c) \<Rightarrow> (Return True, r1\<lparr>grantedCh := c\<rparr>)))"

definition waitUntilGranted_resume :: "request \<Rightarrow> (bool \<times> request) option" where
  "waitUntilGranted_resume r =
     (case recv (grantedCh r) of
        None \<Rightarrow> None
      | Some (v, c) \<Rightarrow> Some (True, r\<lparr>grantedCh := c, mu_r := False\<rparr>))"

definition touch :: "request \<Rightarrow> unit outcome \<times> request" where
  "touch r =
     (if \<not> active r \<or> done_r r then (Return (), r)
      else (case send (touchCh r) True of
              None \<Rightarrow> (Blocked, r\<lparr>mu_r := True\<rparr>)
            | Some c \<Rightarrow> (Return (), r\<lparr>touchCh := c\<rparr>)))"

definition touch_resume :: "request \<Rightarrow> request option" where
  "touch_resume r =
     (case send (touchCh r) True of
        None \<Rightarrow> None
      | Some c \<Rightarrow> Some (r\<lparr>touchCh := c, mu_r := False\<rparr>))"

definition release :: "request \<Rightarrow> unit outcome \<times> request" where
  "release r =
     (if \<not> active r \<or> done_r r then (Return (), r)
      else let r1 = r\<lparr>done_r := True\<rparr> in
        (case send (releaseCh r1) True of
           None \<Rightarrow> (Blocked, r1\<lparr>mu_r := True\<rparr>)
         | Some c \<Rightarrow> (Return (), r1\<lparr>releaseCh := c\<rparr>)))"

definition release_resume :: "request \<Rightarrow> request option" where
  "release_resume r =
     (case send (releaseCh r) True of
        None \<Rightarrow> None
      | Some c \<Rightarrow> Some (r\<lparr>releaseCh := c, mu_r := False\<rparr>))"

definition finished :: "request \<Rightarrow> request" where
  "finished r = r\<lparr>done_r := True\<rparr>"

section \<open>The Protector\<close>

text \<open>An availability callback is arbitrary user code: its answer may differ from call to
  call, so it is a function of the number of calls made before.\<close>

type_synonym AvailabilityCallback = "nat \<Rightarrow> int"

record Protector =
  Name :: string
  maxTokens :: int
  usedTokens :: int
  delayBetween :: Duration
  releaseTimeout :: Duration
  requests :: "Receipt \<rightharpoonup> addr"
  pending :: "addr list"
  lastProcess :: Time
  reprocessing :: bool
  availabilityCb :: "AvailabilityCallback option"
  mu :: bool

definition New :: "string \<Rightarrow> Duration \<Rightarrow> int \<Rightarrow> Duration \<Rightarrow> Protector" where
  "New name delay maxSimultaneous timeout =
     \<lparr>Name = name, maxTokens = maxSimultaneous, usedTokens = 0, delayBetween = delay,
      releaseTimeout = timeout, requests = Map.empty, pending = [], lastProcess = 0,
      reprocessing = False, availabilityCb = None, mu = False\<rparr>"

text \<open>Modelled from the spec: the \<open>Error\<close> struct and the \<open>ErrOverMaximumTokens\<close> constant
  are declared elsewhere in package rp; \<open>Request\<close> builds
  \<open>Error{p.Name, "Request", Receipt(""), ErrOverMaximumTokens}\<close>, and the spec names the
  failure OverMaximumTokens.\<close>

datatype ErrReason = ErrOverMaximumTokens

datatype Error = Error string string Receipt ErrReason

text \<open>A goroutine, at the point where it next touches shared state.\<close>

datatype task =
    GoProcess
  | ProcessSend addr nat
  | GoReprocess
  | ReprocessSleep Time
  | GoWatchdog addr
  | WatchdogSelect addr Time Time
  | WatchdogFinished addr
  | WatchdogReturn addr
  | WaitBlocked addr
  | TouchBlocked addr
  | ReleaseBlocked addr
  | Exited

text \<open>The whole system: the Protector, the heap of requests, the goroutines, the clock and
  the number of callback invocations so far.  \<open>submitLog\<close>, \<open>grantLog\<close> and \<open>returnLog\<close>
  are history variables: the requests in the order \<open>Request\<close> queued them, the requests
  in the order \<open>process\<close> claimed their tokens, each with the time stored in
  \<open>lastProcess\<close>, and the requests in the order their watchdogs gave the tokens back.\<close>

record sys =
  prot :: Protector
  heap :: "request list"
  tasks :: "task list"
  now :: Time
  cbCalls :: nat
  submitLog :: "addr list"
  grantLog :: "(addr \<times> Time) list"
  returnLog :: "addr list"

definition start :: "Protector \<Rightarrow> Time \<Rightarrow> sys" where
  "start p t = \<lparr>prot = p, heap = [], tasks = [], now = t, cbCalls = 0,
                submitLog = [], grantLog = [], returnLog = []\<rparr>"

definition SetAvailabilityCallback :: "AvailabilityCallback option \<Rightarrow> sys \<Rightarrow> sys option" where
  "SetAvailabilityCallback callback s =
     (if mu (prot s) then None
      else Some (s\<lparr>prot := (prot s)\<lparr>availabilityCb := callback\<rparr>\<rparr>))"

text \<open>\<open>Request\<close>: the fresh UUID is an input.  The bound is checked before the lock is taken;
  the rest runs under \<open>p.mu\<close>.\<close>

definition Request :: "int \<Rightarrow> Duration list \<Rightarrow> Receipt \<Rightarrow> sys \<Rightarrow> ((Error + Receipt) \<times> sys) option" where
  "Request n autoRel uuid s =
     (let p = prot s in
      if n > maxTokens p then Some (Inl (Error (Name p) ''Request'' [] ErrOverMaximumTokens), s)
      else if mu p then None
      else
        let r = \<lparr>id_r = uuid, owner = [], numTokens = n, grantedCh = make_chan 1,
                 releaseCh = make_chan 1, touchCh = make_chan 1,
                 autoRelease = (if length autoRel = 1 then hd autoRel else 8760 * Hour),
                 active = False, done_r = False, mu_r = False\<rparr>;
            a = length (heap s);
            p' = p\<lparr>pending := pending p @ [a], requests := (requests p)(uuid \<mapsto> a)\<rparr>
        in Some (Inr uuid,
                 s\<lparr>prot := p', heap := heap s @ [r], submitLog := submitLog s @ [a],
                   tasks := tasks s @
                     [if IsZero (lastProcess p') \<and> length (pending p') = 1
                      then GoProcess else GoReprocess]\<rparr>))"

definition WaitUntilGranted :: "Receipt \<Rightarrow> sys \<Rightarrow> (bool outcome \<times> sys) option" where
  "WaitUntilGranted receipt s =
     (if mu (prot s) then None
      else case requests (prot s) receipt of
        None \<Rightarrow> Some (Return False, s)
      | Some a \<Rightarrow>
          if mu_r (heap s ! a) then None
          else (case waitUntilGranted (heap s ! a) of
                  (Return b, r') \<Rightarrow> Some (Return b, s\<lparr>heap := (heap s)[a := r']\<rparr>)
                | (Blocked, r') \<Rightarrow>
                    Some (Blocked, s\<lparr>heap := (heap s)[a := r'],
                                     tasks := tasks s @ [WaitBlocked a]\<rparr>)))"

definition Touch :: "Receipt \<Rightarrow> sys \<Rightarrow> (unit outcome \<times> sys) option" where
  "Touch receipt s =
     (if mu (prot s) then None
      else case requests (prot s) receipt of
        None \<Rightarrow> Some (Return (), s)
      | Some a \<Rightarrow>
          if mu_r (heap s ! a) then None
          else (case touch (heap s ! a) of
                  (Return u, r') \<Rightarrow> Some (Return u, s\<lparr>heap := (heap s)[a := r']\<rparr>)
                | (Blocked, r') \<Rightarrow>
                    Some (Blocked, s\<lparr>heap := (heap s)[a := r'],
                                     tasks := tasks s @ [TouchBlocked a]\<rparr>)))"

definition Release :: "Receipt \<Rightarrow> sys \<Rightarrow> (unit outcome \<times> sys) option" where
  "Release receipt s =
     (if mu (prot s) then None
      else case requests (prot s) receipt of
        None \<Rightarrow> Some (Return (), s)
      | Some a \<Rightarrow>
          if mu_r (heap s ! a) then None
          else (case release (heap s ! a) of
                  (Return u, r') \<Rightarrow> Some (Return u, s\<lparr>heap := (heap s)[a := r']\<rparr>)
                | (Blocked, r') \<Rightarrow>
                    Some (Blocked, s\<lparr>heap := (heap s)[a := r'],
                                     tasks := tasks s @ [ReleaseBlocked a]\<rparr>)))"

text \<open>\<open>availableTokens\<close>, given the number of callback invocations so far; returns the new
  count with the result.\<close>

definition availableTokens :: "Protector \<Rightarrow> nat \<Rightarrow> (int \<times> bool) \<times> nat" where
  "availableTokens p k =
     (case availabilityCb p of
        Some cb \<Rightarrow>
          (let availableTokens = cb k in
           ((if availableTokens > maxTokens p then maxTokens p else availableTokens, True), Suc k))
      | None \<Rightarrow> ((0, False), k))"

text \<open>The end of \<open>process\<close>, once the send on \<open>grantedCh\<close> has gone through: the watchdog
  goroutine is started and, if other requests were pending, a \<open>reprocess\<close>.\<close>

definition process_granted :: "addr \<Rightarrow> nat \<Rightarrow> chan \<Rightarrow> sys \<Rightarrow> sys" where
  "process_granted a pendingLen c s =
     s\<lparr>heap := (heap s)[a := (heap s ! a)\<lparr>grantedCh := c\<rparr>],
       tasks := tasks s @ [GoWatchdog a] @ (if pendingLen > 1 then [GoReprocess] else [])\<rparr>"

text \<open>\<open>process\<close>, run with \<open>p.mu\<close> acquired.  The second component is what the calling
  goroutine becomes: \<open>Exited\<close> once \<open>process\<close> has returned and unlocked, \<open>ProcessSend\<close>
  if it is blocked in the send on \<open>grantedCh\<close> with \<open>p.mu\<close> still held.\<close>

definition process :: "sys \<Rightarrow> sys \<times> task" where
  "process s =
     (let p = prot s; pendingLen = length (pending p) in
      if usedTokens p = maxTokens p \<or> pendingLen = 0 then (s, Exited)
      else
        let ((avail, checked), k) = availableTokens p (cbCalls s);
            a = hd (pending p);
            r = heap s ! a
        in
          if checked \<and> avail < numTokens r then
            (s\<lparr>prot := p\<lparr>lastProcess := now s\<rparr>, cbCalls := k,
               tasks := tasks s @ [GoReprocess]\<rparr>, Exited)
          else if numTokens r > 1 \<and> int64 (maxTokens p - usedTokens p) < numTokens r then
            (s\<lparr>cbCalls := k\<rparr>, Exited)
          else
            let p' = p\<lparr>pending := tl (pending p),
                       usedTokens := int64 (usedTokens p + numTokens r),
                       lastProcess := now s\<rparr>;
                s' = s\<lparr>prot := p', cbCalls := k, grantLog := grantLog s @ [(a, now s)]\<rparr>
            in (case send (grantedCh r) True of
                  None \<Rightarrow> (s'\<lparr>prot := p'\<lparr>mu := True\<rparr>\<rparr>, ProcessSend a pendingLen)
                | Some c \<Rightarrow> (process_granted a pendingLen c s', Exited)))"

definition process_resume :: "addr \<Rightarrow> nat \<Rightarrow> sys \<Rightarrow> (sys \<times> task) option" where
  "process_resume a pendingLen s =
     (case send (grantedCh (heap s ! a)) True of
        None \<Rightarrow> None
      | Some c \<Rightarrow>
          Some (process_granted a pendingLen c (s\<lparr>prot := (prot s)\<lparr>mu := False\<rparr>\<rparr>), Exited))"

text \<open>\<open>reprocess\<close>, run with \<open>p.mu\<close> acquired: either it returns at once (another reprocess
  is waiting), or it sleeps with the flag set, or it clears the flag in the same critical
  section and goes on to call \<open>process\<close>.\<close>

definition reprocess :: "sys \<Rightarrow> sys \<times> task" where
  "reprocess s =
     (let p = prot s in
      if reprocessing p then (s, Exited)
      else
        let since = Since (now s) (lastProcess p) in
          if since < delayBetween p then
            (let remaining = int64 (delayBetween p - since) in
             (s\<lparr>prot := p\<lparr>reprocessing := True\<rparr>\<rparr>, ReprocessSleep (now s + remaining)))
          else (s\<lparr>prot := p\<lparr>reprocessing := False\<rparr>\<rparr>, GoProcess))"

definition reprocess_wake :: "sys \<Rightarrow> sys \<times> task" where
  "reprocess_wake s = (s\<lparr>prot := (prot s)\<lparr>reprocessing := False\<rparr>\<rparr>, GoProcess)"

text \<open>The watchdog goroutine of \<open>process\<close>.  \<open>WatchdogSelect a autoAt limitAt\<close> waits in
  the \<open>select\<close>; the two timers fire once the clock has reached them.\<close>

datatype select_case = CaseRelease | CaseLimit | CaseAuto | CaseTouch

definition watchdog_start :: "addr \<Rightarrow> sys \<Rightarrow> task" where
  "watchdog_start a s =
     WatchdogSelect a (now s + autoRelease (heap s ! a)) (now s + releaseTimeout (prot s))"

definition watchdog_select :: "addr \<Rightarrow> Time \<Rightarrow> Time \<Rightarrow> select_case \<Rightarrow> sys \<Rightarrow> (sys \<times> task) option" where
  "watchdog_select a autoAt limitAt c s =
     (let r = heap s ! a in
      case c of
        CaseRelease \<Rightarrow>
          (case recv (releaseCh r) of
             None \<Rightarrow> None
           | Some (v, ch) \<Rightarrow> Some (s\<lparr>heap := (heap s)[a := r\<lparr>releaseCh := ch\<rparr>]\<rparr>, WatchdogReturn a))
      | CaseLimit \<Rightarrow> if limitAt \<le> now s then Some (s, WatchdogFinished a) else None
      | CaseAuto \<Rightarrow> if autoAt \<le> now s then Some (s, WatchdogFinished a) else None
      | CaseTouch \<Rightarrow>
          (case recv (touchCh r) of
             None \<Rightarrow> None
           | Some (v, ch) \<Rightarrow>
               Some (s\<lparr>heap := (heap s)[a := r\<lparr>touchCh := ch\<rparr>]\<rparr>,
                     WatchdogSelect a autoAt (now s + releaseTimeout (prot s)))))"

definition watchdog_finished :: "addr \<Rightarrow> sys \<Rightarrow> sys \<times> task" where
  "watchdog_finished a s = (s\<lparr>heap := (heap s)[a := finished (heap s ! a)]\<rparr>, WatchdogReturn a)"

definition watchdog_return :: "addr \<Rightarrow> sys \<Rightarrow> sys \<times> task" where
  "watchdog_return a s =
     (let p = prot s; r = heap s ! a;
          p' = p\<lparr>usedTokens := int64 (usedTokens p - numTokens r),
                 requests := (requests p)(id_r r := None)\<rparr>
      in (s\<lparr>prot := p', returnLog := returnLog s @ [a]\<rparr>,
          if length (pending p') > 0 then GoReprocess else Exited))"

section \<open>Interleavings\<close>

text \<open>An event is a call of the public API by some client goroutine, the passing of some
  nanoseconds, or the next atomic step of goroutine number \<open>i\<close> (for a watchdog in its \<open>select\<close>, of the
  given case).  \<open>None\<close>: the event cannot happen in this state (the lock it needs is held,
  the channel is not ready, the timer has not fired).  A step is what a goroutine does
  between two points where it can be held up: a critical section of \<open>p.mu\<close> or of a request's
  mutex up to the next blocking channel operation.  \<open>WaitUntilGranted\<close>, \<open>Touch\<close> and
  \<open>Release\<close> look the receipt up and call the request's method in one step; a request that
  has been removed from the map in between is done, so its method does what the failed
  lookup does: nothing.\<close>

datatype event =
    Tick Duration
  | CallSetAvailabilityCallback "AvailabilityCallback option"
  | CallRequest int "Duration list" Receipt
  | CallWaitUntilGranted Receipt
  | CallTouch Receipt
  | CallRelease Receipt
  | Run nat select_case

definition set_task :: "nat \<Rightarrow> sys \<times> task \<Rightarrow> sys" where
  "set_task i st = (fst st)\<lparr>tasks := (tasks (fst st))[i := snd st]\<rparr>"

definition run_task :: "nat \<Rightarrow> select_case \<Rightarrow> sys \<Rightarrow> sys option" where
  "run_task i c s =
     (if length (tasks s) \<le> i then None
      else case tasks s ! i of
        GoProcess \<Rightarrow> if mu (prot s) then None else Some (set_task i (process s))
      | ProcessSend a n \<Rightarrow> map_option (set_task i) (process_resume a n s)
      | GoReprocess \<Rightarrow> if mu (prot s) then None else Some (set_task i (reprocess s))
      | ReprocessSleep wake \<Rightarrow>
          if now s < wake \<or> mu (prot s) then None else Some (set_task i (reprocess_wake s))
      | GoWatchdog a \<Rightarrow> Some (set_task i (s, watchdog_start a s))
      | WatchdogSelect a autoAt limitAt \<Rightarrow>
          map_option (set_task i) (watchdog_select a autoAt limitAt c s)
      | WatchdogFinished a \<Rightarrow>
          if mu_r (heap s ! a) then None else Some (set_task i (watchdog_finished a s))
      | WatchdogReturn a \<Rightarrow>
          if mu (prot s) then None else Some (set_task i (watchdog_return a s))
      | WaitBlocked a \<Rightarrow>
          (case waitUntilGranted_resume (heap s ! a) of
             None \<Rightarrow> None
           | Some (b, r') \<Rightarrow> Some (set_task i (s\<lparr>heap := (heap s)[a := r']\<rparr>, Exited)))
      | TouchBlocked a \<Rightarrow>
          (case touch_resume (heap s ! a) of
             None \<Rightarrow> None
           | Some r' \<Rightarrow> Some (set_task i (s\<lparr>heap := (heap s)[a := r']\<rparr>, Exited)))
      | ReleaseBlocked a \<Rightarrow>
          (case release_resume (heap s ! a) of
             None \<Rightarrow> None
           | Some r' \<Rightarrow> Some (set_task i (s\<lparr>heap := (heap s)[a := r']\<rparr>, Exited)))
      | Exited \<Rightarrow> None)"

definition step :: "event \<Rightarrow> sys \<Rightarrow> sys option" where
  "step e s =
     (case e of
        Tick d \<Rightarrow> if d < 0 then None else Some (s\<lparr>now := now s + d\<rparr>)
      | CallSetAvailabilityCallback cb \<Rightarrow> SetAvailabilityCallback cb s
      | CallRequest n autoRel uuid \<Rightarrow> map_option snd (Request n autoRel uuid s)
      | CallWaitUntilGranted receipt \<Rightarrow> map_option snd (WaitUntilGranted receipt s)
      | CallTouch receipt \<Rightarrow> map_option snd (Touch receipt s)
      | CallRelease receipt \<Rightarrow> map_option snd (Release receipt s)
      | Run i c \<Rightarrow> run_task i c s)"

fun run :: "event list \<Rightarrow> sys \<Rightarrow> sys option" where
  "run [] s = Some s"
| "run (e # es) s = (case step e s of None \<Rightarrow> None | Some s' \<Rightarrow> run es s')"

section \<open>Concrete inputs\<close>

text \<open>An availability callback that always answers \<open>v\<close>, an instant of the year 2016 and
  three Protectors on which the theorems below are run.\<close>

definition probe_const :: "int \<Rightarrow> AvailabilityCallback" where
  "probe_const v k = v"

definition t2016 :: Time where
  "t2016 = 63600000000000000000"

definition sys3 :: sys where
  "sys3 = start (New ''r'' 0 3 (10000 * Millisecond)) t2016"

definition sys10 :: sys where
  "sys10 = start (New ''r'' (500 * Millisecond) 10 (10000 * Millisecond)) t2016"


text \<open>The Protector of ten tokens and 500 ms with a callback that answers 0 and one request
  for one token queued.\<close>

definition sys10_probe0 :: sys where
  "sys10_probe0 =
     snd (the (Request 1 [] ''a'' (the (SetAvailabilityCallback (Some (probe_const 0)) sys10))))"

text \<open>The first scenario of the spec up to the point where the waiter has seen its grant:
  one request for one token, granted, waited for; its watchdog not yet started.\<close>

definition sys3_waited :: sys where
  "sys3_waited =
     the (run [CallRequest 1 [] ''a'', Run 0 CaseLimit, CallWaitUntilGranted ''a''] sys3)"

section \<open>Invariants of the interleavings\<close>

text \<open>Grants follow submissions: what has been submitted is what has been granted, in that
  order, followed by what is still pending.\<close>

definition fifo :: "sys \<Rightarrow> bool" where
  "fifo s \<longleftrightarrow> submitLog s = map fst (grantLog s) @ pending (prot s)"

text \<open>The requests whose tokens a goroutine holds: those of a watchdog that has not yet given
  them back, and those of a \<open>process\<close> that has claimed them and is still in its send.\<close>

fun held :: "task \<Rightarrow> addr list" where
  "held (ProcessSend a n) = [a]"
| "held (GoWatchdog a) = [a]"
| "held (WatchdogSelect a autoAt limitAt) = [a]"
| "held (WatchdogFinished a) = [a]"
| "held (WatchdogReturn a) = [a]"
| "held t = []"

definition holders :: "task list \<Rightarrow> addr list" where
  "holders ts = concat (map held ts)"

text \<open>The four ways a step can move tokens and requests around.\<close>

definition same_tokens :: "sys \<Rightarrow> sys \<Rightarrow> bool" where
  "same_tokens s s' \<longleftrightarrow>
     maxTokens (prot s') = maxTokens (prot s) \<and> submitLog s' = submitLog s \<and>
     pending (prot s') = pending (prot s) \<and> usedTokens (prot s') = usedTokens (prot s) \<and>
     returnLog s' = returnLog s \<and> map numTokens (heap s') = map numTokens (heap s) \<and>
     mset (holders (tasks s')) = mset (holders (tasks s))"

definition queued :: "int \<Rightarrow> sys \<Rightarrow> sys \<Rightarrow> bool" where
  "queued n s s' \<longleftrightarrow>
     n \<le> maxTokens (prot s) \<and>
     maxTokens (prot s') = maxTokens (prot s) \<and>
     submitLog s' = submitLog s @ [length (heap s)] \<and>
     pending (prot s') = pending (prot s) @ [length (heap s)] \<and>
     usedTokens (prot s') = usedTokens (prot s) \<and>
     returnLog s' = returnLog s \<and> map numTokens (heap s') = map numTokens (heap s) @ [n] \<and>
     mset (holders (tasks s')) = mset (holders (tasks s))"

definition claimed :: "addr \<Rightarrow> sys \<Rightarrow> sys \<Rightarrow> bool" where
  "claimed a s s' \<longleftrightarrow>
     maxTokens (prot s') = maxTokens (prot s) \<and> submitLog s' = submitLog s \<and>
     pending (prot s) = a # pending (prot s') \<and>
     usedTokens (prot s) \<noteq> maxTokens (prot s) \<and>
     (1 < numTokens (heap s ! a) \<longrightarrow>
        numTokens (heap s ! a) \<le> int64 (maxTokens (prot s) - usedTokens (prot s))) \<and>
     usedTokens (prot s') = int64 (usedTokens (prot s) + numTokens (heap s ! a)) \<and>
     returnLog s' = returnLog s \<and> map numTokens (heap s') = map numTokens (heap s) \<and>
     mset (holders (tasks s')) = add_mset a (mset (holders (tasks s)))"

definition returned :: "addr \<Rightarrow> sys \<Rightarrow> sys \<Rightarrow> bool" where
  "returned a s s' \<longleftrightarrow>
     maxTokens (prot s') = maxTokens (prot s) \<and> submitLog s' = submitLog s \<and>
     pending (prot s') = pending (prot s) \<and>
     usedTokens (prot s') = int64 (usedTokens (prot s) - numTokens (heap s ! a)) \<and>
     returnLog s' = returnLog s @ [a] \<and> map numTokens (heap s') = map numTokens (heap s) \<and>
     add_mset a (mset (holders (tasks s'))) = mset (holders (tasks s))"

text \<open>The tokens of a multiset of requests; and the accounting invariant: every request ever
  allocated is in exactly one of the pending queue, the hands of a goroutine that holds
  its tokens, and the returned ones, and \<open>usedTokens\<close> is the sum over the held ones (as a
  64-bit integer).\<close>

definition tokens_of :: "sys \<Rightarrow> addr multiset \<Rightarrow> int" where
  "tokens_of s M = sum_mset (image_mset (\<lambda>a. numTokens (heap s ! a)) M)"

definition accounted :: "sys \<Rightarrow> bool" where
  "accounted s \<longleftrightarrow>
     mset (pending (prot s)) + mset (holders (tasks s)) + mset (returnLog s)
       = mset [0..<length (heap s)] \<and>
     submitLog s = [0..<length (heap s)] \<and>
     usedTokens (prot s) = int64 (tokens_of s (mset (holders (tasks s))))"

text \<open>Runs in which no \<open>Request\<close> asks for a negative number of tokens.\<close>

definition nonneg_request :: "event \<Rightarrow> bool" where
  "nonneg_request e = (case e of CallRequest n ar u \<Rightarrow> 0 \<le> n | _ \<Rightarrow> True)"

definition bounded :: "sys \<Rightarrow> bool" where
  "bounded s \<longleftrightarrow>
     accounted s \<and> (\<forall>n \<in> set (map numTokens (heap s)). 0 \<le> n) \<and>
     tokens_of s (mset (holders (tasks s))) \<le> maxTokens (prot s) \<and>
     maxTokens (prot s) \<le> 9223372036854775807"


text \<open>What every reachable state satisfies: the Protector's lock is free between steps, the
  pending queue has no duplicates and its requests have an empty \<open>grantedCh\<close> of capacity
  one (so the send in \<open>process\<close> never blocks), and every address in use is allocated.\<close>

definition sound :: "sys \<Rightarrow> bool" where
  "sound s \<longleftrightarrow>
     \<not> mu (prot s) \<and>
     distinct (pending (prot s)) \<and>
     (\<forall>a \<in> set (pending (prot s)). a < length (heap s) \<and> grantedCh (heap s ! a) = make_chan 1) \<and>
     (\<forall>a n. ProcessSend a n \<notin> set (tasks s)) \<and>
     (\<forall>a. WaitBlocked a \<in> set (tasks s) \<longrightarrow> a < length (heap s)) \<and>
     (\<forall>rc a. requests (prot s) rc = Some a \<longrightarrow> a < length (heap s))"

text \<open>The request at \<open>a\<close>, known by \<open>uuid\<close> only, that nobody has waited for yet: once it is
  out of the pending queue, its grant signal sits in \<open>grantedCh\<close>.\<close>

definition unobserved :: "addr \<Rightarrow> Receipt \<Rightarrow> sys \<Rightarrow> bool" where
  "unobserved a uuid s \<longleftrightarrow>
     a < length (heap s) \<and> \<not> active (heap s ! a) \<and> \<not> mu_r (heap s ! a) \<and>
     WaitBlocked a \<notin> set (tasks s) \<and>
     (\<forall>rc. requests (prot s) rc = Some a \<longrightarrow> rc = uuid) \<and>
     (a \<notin> set (pending (prot s)) \<longrightarrow> grantedCh (heap s ! a) = \<lparr>cap = 1, buf = [True]\<rparr>)"

section \<open>Request\<close>

lemma Request_over:
  "maxTokens (prot s) < n \<Longrightarrow>
   Request n ar uuid s = Some (Inl (Error (Name (prot s)) ''Request'' [] ErrOverMaximumTokens), s)"
  by (simp add: Request_def)

lemma Request_accept:
  "n \<le> maxTokens (prot s) \<Longrightarrow> \<not> mu (prot s) \<Longrightarrow>
   \<exists>s'. Request n ar uuid s = Some (Inr uuid, s') \<and>
        pending (prot s') = pending (prot s) @ [length (heap s)] \<and>
        numTokens (heap s' ! length (heap s)) = n"
  by (simp add: Request_def Let_def)

text \<open>
  C4.  \<open>Request\<close> fails with the OverMaximumTokens error exactly when \<open>numTokens > maxTokens\<close>.
  The failure is returned with the empty receipt, before any lock is taken, and the state
  is the one before the call.  A call that returns a receipt has appended the new request
  (with the requested token count, empty channels, neither active nor done) to the pending
  queue and stored it under the receipt; and whenever \<open>numTokens \<le> maxTokens\<close> and the
  Protector's lock is free the call does return a receipt.
\<close>

theorem Request_OverMaximumTokens:
  "(maxTokens (prot s) < n \<longrightarrow>
      Request n ar uuid s = Some (Inl (Error (Name (prot s)) ''Request'' [] ErrOverMaximumTokens), s))
   \<and> (Request n ar uuid s = Some (Inl e, s') \<longrightarrow> maxTokens (prot s) < n \<and> s' = s)
   \<and> (Request n ar uuid s = Some (Inr rc, s') \<longrightarrow>
        n \<le> maxTokens (prot s) \<and> rc = uuid \<and>
        pending (prot s') = pending (prot s) @ [length (heap s)] \<and>
        requests (prot s') = (requests (prot s))(uuid \<mapsto> length (heap s)) \<and>
        heap s' ! length (heap s) =
          \<lparr>id_r = uuid, owner = [], numTokens = n, grantedCh = make_chan 1,
           releaseCh = make_chan 1, touchCh = make_chan 1,
           autoRelease = (if length ar = 1 then hd ar else 8760 * Hour),
           active = False, done_r = False, mu_r = False\<rparr>)
   \<and> (n \<le> maxTokens (prot s) \<longrightarrow> \<not> mu (prot s) \<longrightarrow>
        (\<exists>s''. Request n ar uuid s = Some (Inr uuid, s'')))"
  by (auto simp: Request_def Let_def split: if_splits)

theorem Request_OverMaximumTokens_witness:
  "Request 4 [] ''u'' sys3 = Some (Inl (Error ''r'' ''Request'' [] ErrOverMaximumTokens), sys3)
   \<and> (\<exists>s''. Request 3 [] ''u'' sys3 = Some (Inr ''u'', s''))"
  using Request_OverMaximumTokens [of sys3 4 "[]" "''u''"]
        Request_OverMaximumTokens [of sys3 3 "[]" "''u''"]
  by (simp add: sys3_def start_def New_def)

text \<open>
  C5 (as the code has it).  A \<open>Request\<close> for zero tokens is rejected, with OverMaximumTokens,
  only by a Protector whose \<open>maxTokens\<close> is negative.  Whenever \<open>maxTokens \<ge> 0\<close> the call is
  accepted: it returns the receipt and the zero-token request is appended to the pending
  queue.
\<close>

theorem Request_zero_tokens:
  "(maxTokens (prot s) < 0 \<longrightarrow>
      Request 0 ar uuid s = Some (Inl (Error (Name (prot s)) ''Request'' [] ErrOverMaximumTokens), s))
   \<and> (0 \<le> maxTokens (prot s) \<longrightarrow> \<not> mu (prot s) \<longrightarrow>
        (\<exists>s'. Request 0 ar uuid s = Some (Inr uuid, s') \<and>
              pending (prot s') = pending (prot s) @ [length (heap s)] \<and>
              numTokens (heap s' ! length (heap s)) = 0))"
  using Request_over [of s 0 ar uuid] Request_accept [of 0 s ar uuid] by simp

theorem Request_zero_tokens_witness:
  "\<exists>s'. Request 0 [] ''u'' sys3 = Some (Inr ''u'', s') \<and> pending (prot s') = [0] \<and>
        numTokens (heap s' ! 0) = 0"
  using Request_zero_tokens [of sys3 "[]" "''u''"]
  by (simp add: sys3_def start_def New_def)

text \<open>The claim as the spec words it fails on a fresh Protector of three tokens: the
  zero-token request gets its receipt and is queued.\<close>

theorem Request_zero_tokens_counterexample:
  "map_option fst (Request 0 [] ''u'' sys3) = Some (Inr ''u'')
   \<and> map_option (pending \<circ> prot \<circ> snd) (Request 0 [] ''u'' sys3) = Some [0]"
  by (simp add: Request_def Let_def sys3_def start_def New_def)

section \<open>The availability callback\<close>

lemma availableTokens_Some:
  "availabilityCb p = Some cb \<Longrightarrow>
   availableTokens p k = ((min (cb k) (maxTokens p), True), Suc k)"
  by (simp add: availableTokens_def Let_def min_def)

lemma availableTokens_calls:
  "snd (availableTokens p k) \<le> Suc k \<and> k \<le> snd (availableTokens p k)"
  by (simp add: availableTokens_def Let_def split: option.splits)

lemma process_cbCalls:
  "cbCalls (fst (process s)) \<le> Suc (cbCalls s) \<and> cbCalls s \<le> cbCalls (fst (process s))"
  using availableTokens_calls [of "prot s" "cbCalls s"]
  by (auto simp: process_def Let_def process_granted_def split: prod.splits option.splits)

lemma process_denied:
  assumes "usedTokens (prot s) \<noteq> maxTokens (prot s)" and "pending (prot s) \<noteq> []"
    and "availableTokens (prot s) (cbCalls s) = ((v, True), k)"
    and "v < numTokens (heap s ! hd (pending (prot s)))"
  shows "process s = (s\<lparr>prot := (prot s)\<lparr>lastProcess := now s\<rparr>, cbCalls := k,
                        tasks := tasks s @ [GoReprocess]\<rparr>, Exited)"
  using assms by (simp add: process_def Let_def)

lemma process_tasks_cases:
  "tasks (fst (process s)) = tasks s \<or>
   (\<exists>a. tasks (fst (process s)) = tasks s @ [GoWatchdog a] \<or>
        tasks (fst (process s)) = tasks s @ [GoWatchdog a, GoReprocess]) \<or>
   (tasks (fst (process s)) = tasks s @ [GoReprocess] \<and>
      fst (availableTokens (prot s) (cbCalls s))
        = (fst (fst (availableTokens (prot s) (cbCalls s))), True) \<and>
      fst (fst (availableTokens (prot s) (cbCalls s))) < numTokens (heap s ! hd (pending (prot s))))"
  by (auto simp: process_def Let_def process_granted_def split: prod.splits option.splits)

text \<open>
  C6 (as the code has it).  For every installed availability callback and every integer it
  returns, the value the scheduling pass uses is the smaller of the callback's answer and
  \<open>maxTokens\<close>: an answer above \<open>maxTokens\<close> is reduced to \<open>maxTokens\<close>, every other answer,
  a negative one included, is used as it is.  The callback is consulted at most once per
  scheduling pass, and a pass that gets as far as the head request defers (with a scheduled
  reprocess) exactly when that value is smaller than the head's \<open>numTokens\<close>.
\<close>

theorem availableTokens_min:
  "(availabilityCb p = Some cb \<longrightarrow>
      availableTokens p k = ((min (cb k) (maxTokens p), True), Suc k))
   \<and> cbCalls (fst (process s)) \<le> Suc (cbCalls s)
   \<and> (availabilityCb (prot s) = Some cb' \<longrightarrow> usedTokens (prot s) \<noteq> maxTokens (prot s) \<longrightarrow>
        pending (prot s) \<noteq> [] \<longrightarrow>
        (tasks (fst (process s)) = tasks s @ [GoReprocess]) =
        (min (cb' (cbCalls s)) (maxTokens (prot s)) < numTokens (heap s ! hd (pending (prot s)))))"
proof -
  have a: "availabilityCb p = Some cb \<longrightarrow>
      availableTokens p k = ((min (cb k) (maxTokens p), True), Suc k)"
    by (simp add: availableTokens_Some)
  have b: "cbCalls (fst (process s)) \<le> Suc (cbCalls s)"
    by (simp add: process_cbCalls)
  have c: "(tasks (fst (process s)) = tasks s @ [GoReprocess]) =
        (min (cb' (cbCalls s)) (maxTokens (prot s)) < numTokens (heap s ! hd (pending (prot s))))"
    if h: "availabilityCb (prot s) = Some cb'" "usedTokens (prot s) \<noteq> maxTokens (prot s)"
        "pending (prot s) \<noteq> []"
  proof
    assume "tasks (fst (process s)) = tasks s @ [GoReprocess]"
    with process_tasks_cases [of s] availableTokens_Some [OF h(1), of "cbCalls s"]
    show "min (cb' (cbCalls s)) (maxTokens (prot s)) < numTokens (heap s ! hd (pending (prot s)))"
      by auto
  next
    assume "min (cb' (cbCalls s)) (maxTokens (prot s)) < numTokens (heap s ! hd (pending (prot s)))"
    with process_denied [OF h(2) h(3) availableTokens_Some [OF h(1)]]
    show "tasks (fst (process s)) = tasks s @ [GoReprocess]" by simp
  qed
  from a b c show ?thesis by blast
qed

theorem availableTokens_min_witness:
  "availableTokens ((prot sys3)\<lparr>availabilityCb := Some (probe_const 7)\<rparr>) 0 = ((3, True), 1)
   \<and> availableTokens ((prot sys3)\<lparr>availabilityCb := Some (probe_const (- 3))\<rparr>) 0 = ((- 3, True), 1)"
  using availableTokens_min [of "(prot sys3)\<lparr>availabilityCb := Some (probe_const 7)\<rparr>" "probe_const 7" 0]
        availableTokens_min [of "(prot sys3)\<lparr>availabilityCb := Some (probe_const (- 3))\<rparr>"
                                "probe_const (- 3)" 0]
  by (simp add: sys3_def start_def New_def probe_const_def)

text \<open>The claim as the spec words it fails for a callback that answers \<open>-3\<close> on a Protector
  of three tokens: the value handed to the scheduling pass is \<open>-3\<close>, not \<open>0\<close>.\<close>

theorem availableTokens_negative_counterexample:
  "availableTokens ((prot sys3)\<lparr>availabilityCb := Some (probe_const (- 3))\<rparr>) 0 = ((- 3, True), 1)"
  by (simp add: availableTokens_def sys3_def start_def New_def probe_const_def)

section \<open>64-bit arithmetic\<close>

lemma int64_id: "- 9223372036854775808 \<le> x \<Longrightarrow> x < 9223372036854775808 \<Longrightarrow> int64 x = x"
  by (simp add: int64_def)

lemma int64_add_left: "int64 (int64 a + b) = int64 (a + b)"
proof -
  have e: "a + 9223372036854775808 + b = a + b + 9223372036854775808"
    by simp
  have "int64 a + b + 9223372036854775808
      = (a + 9223372036854775808) mod 18446744073709551616 + b"
    by (simp add: int64_def)
  then have "(int64 a + b + 9223372036854775808) mod 18446744073709551616
      = ((a + 9223372036854775808) mod 18446744073709551616 + b) mod 18446744073709551616"
    by (rule arg_cong)
  also have "\<dots> = (a + 9223372036854775808 + b) mod 18446744073709551616"
    by (rule mod_add_left_eq)
  also have "\<dots> = (a + b + 9223372036854775808) mod 18446744073709551616"
    by (simp only: e)
  finally show ?thesis unfolding int64_def by (rule arg_cong)
qed

lemma int64_diff_left: "int64 (int64 a - b) = int64 (a - b)"
  using int64_add_left [of a "- b"] by simp

section \<open>A scheduling pass that the callback denies\<close>

lemma Since_later:
  "0 \<le> d \<Longrightarrow> d \<le> maxDuration \<Longrightarrow> Since (t + d) t = d"
  by (simp add: Since_def Sub_def Let_def maxDuration_def minDuration_def)

text \<open>
  What the branch of \<open>process\<close> that the callback denies does.  When a scheduling pass
  consults the availability callback (tokens are left and the queue is not empty) and the
  value it gets is smaller than the head request's \<open>numTokens\<close>, the pass returns without
  granting: it sets \<open>lastProcess\<close> to the current time, starts one \<open>reprocess\<close> goroutine and
  changes nothing else of the Protector, no request and no history.  A \<open>reprocess\<close> that
  enters its gate \<open>d < delayBetween\<close> later, with the flag clear, sleeps until \<open>delayBetween\<close>
  after the denial.
\<close>

lemma process_denial_frame:
  assumes "usedTokens (prot s) \<noteq> maxTokens (prot s)" and "pending (prot s) \<noteq> []"
    and "availableTokens (prot s) (cbCalls s) = ((v, True), k)"
    and "v < numTokens (heap s ! hd (pending (prot s)))"
  shows "snd (process s) = Exited
    \<and> prot (fst (process s)) = (prot s)\<lparr>lastProcess := now s\<rparr>
    \<and> heap (fst (process s)) = heap s
    \<and> grantLog (fst (process s)) = grantLog s
    \<and> submitLog (fst (process s)) = submitLog s
    \<and> tasks (fst (process s)) = tasks s @ [GoReprocess]
    \<and> now (fst (process s)) = now s
    \<and> (\<not> reprocessing (prot s) \<longrightarrow> 0 \<le> d \<longrightarrow> d < delayBetween (prot s) \<longrightarrow>
          delayBetween (prot s) \<le> maxDuration \<longrightarrow>
          snd (reprocess ((fst (process s))\<lparr>now := now s + d\<rparr>))
            = ReprocessSleep (now s + delayBetween (prot s)))"
proof -
  have "int64 (delayBetween (prot s) - d) = delayBetween (prot s) - d"
    if "0 \<le> d" "d < delayBetween (prot s)" "delayBetween (prot s) \<le> maxDuration"
    using that by (intro int64_id) (simp_all add: maxDuration_def)
  then show ?thesis
    by (simp add: process_denied [OF assms] reprocess_def Since_later Let_def)
qed

lemma process_denial_frame_example:
  "snd (process sys10_probe0) = Exited
    \<and> prot (fst (process sys10_probe0)) = (prot sys10_probe0)\<lparr>lastProcess := t2016\<rparr>
    \<and> tasks (fst (process sys10_probe0)) = [GoProcess, GoReprocess]
    \<and> snd (reprocess ((fst (process sys10_probe0))\<lparr>now := t2016 + 10\<rparr>))
         = ReprocessSleep (t2016 + 500000000)"
proof -
  have h: "usedTokens (prot sys10_probe0) \<noteq> maxTokens (prot sys10_probe0)"
    "pending (prot sys10_probe0) \<noteq> []"
    "availableTokens (prot sys10_probe0) (cbCalls sys10_probe0) = ((0, True), 1)"
    "0 < numTokens (heap sys10_probe0 ! hd (pending (prot sys10_probe0)))"
    by (simp_all add: sys10_probe0_def sys10_def start_def New_def Request_def
          SetAvailabilityCallback_def Let_def availableTokens_def probe_const_def)
  have "tasks sys10_probe0 = [GoProcess]" "now sys10_probe0 = t2016"
    "\<not> reprocessing (prot sys10_probe0)" "delayBetween (prot sys10_probe0) = 500000000"
    by (simp_all add: sys10_probe0_def sys10_def start_def New_def Request_def
          SetAvailabilityCallback_def Let_def IsZero_def Millisecond_def)
  with process_denial_frame [OF h, of 10] show ?thesis by (simp add: maxDuration_def)
qed

text \<open>
  C7 (the code at the failing input).  The denial sets \<open>lastProcess\<close> so that the next
  attempt waits \<open>delayBetween\<close>, but a goroutine that has already passed the gate of
  \<open>reprocess\<close> is not held back.  With \<open>delayBetween\<close> of 500 ms and a callback that answers
  0: two \<open>Request\<close> calls start a \<open>process\<close> and a \<open>reprocess\<close> goroutine; the \<open>reprocess\<close>
  finds \<open>lastProcess\<close> still zero and goes on to \<open>process\<close>; the first pass is denied at
  \<open>t2016\<close>; one nanosecond later the second pass runs, consults the callback again and is
  denied again.  Nothing is granted.
\<close>

theorem probe_denial_not_delayed:
  "map_option (lastProcess \<circ> prot)
     (run [CallSetAvailabilityCallback (Some (probe_const 0)), CallRequest 1 [] ''a'',
           CallRequest 1 [] ''b'', Run 1 CaseLimit, Run 0 CaseLimit] sys10)
     = Some 63600000000000000000
   \<and> map_option cbCalls
     (run [CallSetAvailabilityCallback (Some (probe_const 0)), CallRequest 1 [] ''a'',
           CallRequest 1 [] ''b'', Run 1 CaseLimit, Run 0 CaseLimit] sys10)
     = Some 1
   \<and> map_option (lastProcess \<circ> prot)
     (run [CallSetAvailabilityCallback (Some (probe_const 0)), CallRequest 1 [] ''a'',
           CallRequest 1 [] ''b'', Run 1 CaseLimit, Run 0 CaseLimit,
           Tick 1, Run 1 CaseLimit] sys10)
     = Some 63600000000000000001
   \<and> map_option cbCalls
     (run [CallSetAvailabilityCallback (Some (probe_const 0)), CallRequest 1 [] ''a'',
           CallRequest 1 [] ''b'', Run 1 CaseLimit, Run 0 CaseLimit,
           Tick 1, Run 1 CaseLimit] sys10)
     = Some 2
   \<and> map_option grantLog
     (run [CallSetAvailabilityCallback (Some (probe_const 0)), CallRequest 1 [] ''a'',
           CallRequest 1 [] ''b'', Run 1 CaseLimit, Run 0 CaseLimit,
           Tick 1, Run 1 CaseLimit] sys10)
     = Some []
   \<and> delayBetween (prot sys10) = 500000000"
  by code_simp

section \<open>Reasoning about all interleavings\<close>

lemma run_invariant:
  assumes "P s0" and "\<And>e s s'. P s \<Longrightarrow> step e s = Some s' \<Longrightarrow> P s'"
    and "run evs s0 = Some s"
  shows "P s"
  using assms(1,3)
proof (induction evs arbitrary: s0)
  case Nil
  then show ?case by simp
next
  case (Cons e evs)
  then show ?case using assms(2) by (auto split: option.splits)
qed

lemma run_append:
  "run (es @ fs) s = (case run es s of None \<Rightarrow> None | Some s' \<Rightarrow> run fs s')"
  by (induction es arbitrary: s) (auto split: option.splits)

section \<open>Strict FIFO\<close>

lemma process_head_only:
  "(grantLog (fst (process s)) = grantLog s \<and> pending (prot (fst (process s))) = pending (prot s))
   \<or> (pending (prot s) \<noteq> [] \<and>
       grantLog (fst (process s)) = grantLog s @ [(hd (pending (prot s)), now s)] \<and>
       pending (prot (fst (process s))) = tl (pending (prot s)))"
  by (auto simp: process_def process_granted_def Let_def split: prod.splits option.splits)

lemma process_fifo: "fifo s \<Longrightarrow> fifo (fst (process s))"
  by (cases "pending (prot s)")
     (auto simp: fifo_def process_def process_granted_def Let_def split: prod.splits option.splits)

lemma run_task_fifo: "run_task i c s = Some s' \<Longrightarrow> fifo s \<Longrightarrow> fifo s'"
  using process_fifo [of s]
  by (auto simp: run_task_def set_task_def fifo_def process_resume_def process_granted_def
        reprocess_def reprocess_wake_def watchdog_select_def watchdog_finished_def
        watchdog_return_def Let_def
      split: if_splits task.splits option.splits select_case.splits prod.splits)

lemma step_fifo: "fifo s \<Longrightarrow> step e s = Some s' \<Longrightarrow> fifo s'"
  using run_task_fifo
  by (auto simp: step_def fifo_def SetAvailabilityCallback_def Request_def WaitUntilGranted_def
        Touch_def Release_def Let_def
      split: event.splits if_splits option.splits prod.splits outcome.splits)

lemma start_fifo: "fifo (start (New name delay maxSimultaneous timeout) t)"
  by (simp add: fifo_def start_def New_def)

text \<open>
  C3.  Grants are strictly FIFO.  A scheduling pass either grants nothing and leaves the
  queue as it is, or grants exactly the request at the head of the pending queue and pops
  it; so a head that does not fit is never overtaken.  Consequently, after any interleaving
  of calls and goroutine steps on a new Protector, the sequence of submissions is the
  sequence of grants followed by the pending queue: requests are granted in the order in
  which they were submitted.
\<close>

theorem grants_are_FIFO:
  assumes "run evs (start (New name delay maxSimultaneous timeout) t) = Some s"
  shows "submitLog s = map fst (grantLog s) @ pending (prot s)
    \<and> ((grantLog (fst (process s)) = grantLog s \<and>
          pending (prot (fst (process s))) = pending (prot s))
       \<or> (pending (prot s) \<noteq> [] \<and>
           grantLog (fst (process s)) = grantLog s @ [(hd (pending (prot s)), now s)] \<and>
           pending (prot (fst (process s))) = tl (pending (prot s))))"
proof -
  have "fifo s"
    using start_fifo step_fifo assms by (rule run_invariant)
  then show ?thesis
    using process_head_only [of s] by (simp add: fifo_def)
qed

text \<open>The second scenario of the spec: three tokens; requests for 3, 2 and 1 tokens; the
  first is granted, waited for and released; the pass that follows grants the request for
  two tokens, and the request for one token, which would have fitted earlier, stays queued.\<close>

theorem grants_are_FIFO_witness:
  "\<exists>s. run [CallRequest 3 [] ''r1'', Run 0 CaseLimit, CallRequest 2 [] ''r2'',
            CallRequest 1 [] ''r3'', Run 2 CaseLimit, Run 2 CaseLimit, Run 3 CaseLimit,
            Run 3 CaseLimit, CallWaitUntilGranted ''r1'', Run 1 CaseLimit, CallRelease ''r1'',
            Run 1 CaseRelease, Run 1 CaseLimit, Run 1 CaseLimit, Run 1 CaseLimit] sys3 = Some s
       \<and> submitLog s = [0, 1, 2] \<and> map fst (grantLog s) = [0, 1] \<and> pending (prot s) = [2]"
proof -
  let ?evs = "[CallRequest 3 [] ''r1'', Run 0 CaseLimit, CallRequest 2 [] ''r2'',
            CallRequest 1 [] ''r3'', Run 2 CaseLimit, Run 2 CaseLimit, Run 3 CaseLimit,
            Run 3 CaseLimit, CallWaitUntilGranted ''r1'', Run 1 CaseLimit, CallRelease ''r1'',
            Run 1 CaseRelease, Run 1 CaseLimit, Run 1 CaseLimit, Run 1 CaseLimit]"
  have "map_option (\<lambda>s. (map fst (grantLog s), pending (prot s))) (run ?evs sys3)
          = Some ([0, 1], [2])"
    by code_simp
  then obtain s where s: "run ?evs sys3 = Some s" "map fst (grantLog s) = [0, 1]"
      "pending (prot s) = [2]"
    by auto
  from grants_are_FIFO [OF s(1) [unfolded sys3_def]] s show ?thesis
    by simp
qed

section \<open>Touch\<close>

lemma Touch_unknown:
  "requests (prot s) receipt = None \<Longrightarrow> \<not> mu (prot s) \<Longrightarrow> Touch receipt s = Some (Return (), s)"
  by (simp add: Touch_def)

lemma Touch_inert:
  "requests (prot s) receipt = Some a \<Longrightarrow> \<not> mu (prot s) \<Longrightarrow> \<not> mu_r (heap s ! a) \<Longrightarrow>
   \<not> active (heap s ! a) \<or> done_r (heap s ! a) \<Longrightarrow> Touch receipt s = Some (Return (), s)"
  by (auto simp add: Touch_def touch_def)

lemma Touch_sends:
  "requests (prot s) receipt = Some a \<Longrightarrow> \<not> mu (prot s) \<Longrightarrow> \<not> mu_r (heap s ! a) \<Longrightarrow>
   active (heap s ! a) \<Longrightarrow> \<not> done_r (heap s ! a) \<Longrightarrow>
   length (buf (touchCh (heap s ! a))) < cap (touchCh (heap s ! a)) \<Longrightarrow>
   Touch receipt s = Some (Return (),
      s\<lparr>heap := (heap s)[a := (heap s ! a)\<lparr>touchCh :=
             (touchCh (heap s ! a))\<lparr>buf := buf (touchCh (heap s ! a)) @ [True]\<rparr>\<rparr>]\<rparr>)"
  by (simp add: Touch_def touch_def send_def)

lemma Touch_blocks:
  "requests (prot s) receipt = Some a \<Longrightarrow> \<not> mu (prot s) \<Longrightarrow> \<not> mu_r (heap s ! a) \<Longrightarrow>
   active (heap s ! a) \<Longrightarrow> \<not> done_r (heap s ! a) \<Longrightarrow>
   \<not> length (buf (touchCh (heap s ! a))) < cap (touchCh (heap s ! a)) \<Longrightarrow>
   Touch receipt s = Some (Blocked,
      s\<lparr>heap := (heap s)[a := (heap s ! a)\<lparr>mu_r := True\<rparr>],
        tasks := tasks s @ [TouchBlocked a]\<rparr>)"
  by (simp add: Touch_def touch_def send_def)

lemma TouchBlocked_resume:
  "i < length (tasks s) \<Longrightarrow> tasks s ! i = TouchBlocked a \<Longrightarrow>
   run_task i c s =
     (if length (buf (touchCh (heap s ! a))) < cap (touchCh (heap s ! a))
      then Some (s\<lparr>heap := (heap s)[a := (heap s ! a)\<lparr>touchCh :=
                      (touchCh (heap s ! a))\<lparr>buf := buf (touchCh (heap s ! a)) @ [True]\<rparr>,
                      mu_r := False\<rparr>],
                   tasks := (tasks s)[i := Exited]\<rparr>)
      else None)"
  by (simp add: run_task_def touch_resume_def send_def set_task_def)

text \<open>
  C8 (as the code has it).  \<open>Touch(receipt)\<close> sends on the request's touch channel if and
  only if the receipt is known and the request is active and not done; for an unknown
  receipt, a request that is not active or one that is done it returns with the state
  unchanged.  The send is an ordinary send on a channel of capacity one.  With the slot
  free the signal is stored and \<open>Touch\<close> returns.  With the earlier signal still in the slot
  the call does not return and nothing is dropped: the caller stays blocked in the send,
  holding the request's mutex, and the send goes through once the watchdog has received
  the earlier signal.
\<close>

theorem Touch_signal:
  "(requests (prot s) receipt = None \<longrightarrow> \<not> mu (prot s) \<longrightarrow>
      Touch receipt s = Some (Return (), s))
   \<and> (requests (prot s) receipt = Some a \<longrightarrow> \<not> mu (prot s) \<longrightarrow> \<not> mu_r (heap s ! a) \<longrightarrow>
       Touch receipt s =
        (if \<not> active (heap s ! a) \<or> done_r (heap s ! a) then Some (Return (), s)
         else if length (buf (touchCh (heap s ! a))) < cap (touchCh (heap s ! a))
         then Some (Return (),
                s\<lparr>heap := (heap s)[a := (heap s ! a)\<lparr>touchCh :=
                     (touchCh (heap s ! a))\<lparr>buf := buf (touchCh (heap s ! a)) @ [True]\<rparr>\<rparr>]\<rparr>)
         else Some (Blocked,
                s\<lparr>heap := (heap s)[a := (heap s ! a)\<lparr>mu_r := True\<rparr>],
                  tasks := tasks s @ [TouchBlocked a]\<rparr>)))
   \<and> (i < length (tasks s) \<longrightarrow> tasks s ! i = TouchBlocked a \<longrightarrow>
       run_task i c s =
        (if length (buf (touchCh (heap s ! a))) < cap (touchCh (heap s ! a))
         then Some (s\<lparr>heap := (heap s)[a := (heap s ! a)\<lparr>touchCh :=
                      (touchCh (heap s ! a))\<lparr>buf := buf (touchCh (heap s ! a)) @ [True]\<rparr>,
                      mu_r := False\<rparr>],
                   tasks := (tasks s)[i := Exited]\<rparr>)
         else None))"
  using Touch_unknown [of s receipt] Touch_inert [of s receipt a] Touch_sends [of s receipt a]
    Touch_blocks [of s receipt a] TouchBlocked_resume [of i s a c]
  by presburger

theorem Touch_signal_witness:
  "Touch ''zz'' sys3_waited = Some (Return (), sys3_waited)
   \<and> Touch ''a'' sys3_waited = Some (Return (),
        sys3_waited\<lparr>heap := (heap sys3_waited)[0 := (heap sys3_waited ! 0)\<lparr>touchCh :=
           (touchCh (heap sys3_waited ! 0))\<lparr>buf := buf (touchCh (heap sys3_waited ! 0)) @ [True]\<rparr>\<rparr>]\<rparr>)"
proof -
  have "requests (prot sys3_waited) ''zz'' = None" "requests (prot sys3_waited) ''a'' = Some 0"
    "\<not> mu (prot sys3_waited)" "\<not> mu_r (heap sys3_waited ! 0)"
    "active (heap sys3_waited ! 0)" "\<not> done_r (heap sys3_waited ! 0)"
    "length (buf (touchCh (heap sys3_waited ! 0))) < cap (touchCh (heap sys3_waited ! 0))"
    unfolding sys3_waited_def by code_simp+
  then show ?thesis
    using Touch_signal [of sys3_waited "''zz''" 0 0 CaseTouch]
      Touch_signal [of sys3_waited "''a''" 0 0 CaseTouch]
    by simp
qed

text \<open>The claim as the spec words it fails when \<open>Touch\<close> is called twice before the watchdog
  has run: the second call does not return; its goroutine is blocked in the send and holds
  the request's mutex.\<close>

theorem Touch_twice_counterexample:
  "map_option fst (Option.bind (run [CallTouch ''a''] sys3_waited) (Touch ''a'')) = Some Blocked
   \<and> map_option (tasks \<circ> snd) (Option.bind (run [CallTouch ''a''] sys3_waited) (Touch ''a''))
       = Some [Exited, GoWatchdog 0, TouchBlocked 0]
   \<and> map_option (map mu_r \<circ> heap \<circ> snd) (Option.bind (run [CallTouch ''a''] sys3_waited) (Touch ''a''))
       = Some [True]"
  unfolding sys3_waited_def by code_simp

section \<open>The bounds on usedTokens\<close>

text \<open>
  C1 (the code at the failing inputs).  \<open>Request\<close> accepts a negative \<open>numTokens\<close>, and a
  scheduling pass grants it without the capacity check.  On a Protector of three tokens,
  granting a request for \<open>-1\<close> tokens leaves \<open>usedTokens = -1\<close>; and when requests for 3 and
  for 1 tokens are granted after it and the negative request then times out, four tokens
  are held: \<open>usedTokens = 4\<close> with \<open>maxTokens = 3\<close>.
\<close>

theorem usedTokens_leaves_bounds:
  "map_option (usedTokens \<circ> prot) (run [CallRequest (- 1) [] ''a'', Run 0 CaseLimit] sys3)
     = Some (- 1)
   \<and> map_option (usedTokens \<circ> prot)
       (run [CallRequest (- 1) [] ''a'', Run 0 CaseLimit,
             CallRequest 3 [] ''b'', Run 2 CaseLimit, Run 2 CaseLimit,
             CallRequest 1 [] ''c'', Run 4 CaseLimit, Run 4 CaseLimit,
             Run 1 CaseLimit, Tick 10000000000, Run 1 CaseLimit, Run 1 CaseLimit,
             Run 1 CaseLimit] sys3)
     = Some 4
   \<and> maxTokens (prot sys3) = 3"
  by code_simp

section \<open>The delay between grants\<close>

text \<open>
  C2 (the code at the failing inputs).  With \<open>delayBetween\<close> of 500 ms, two grants one
  nanosecond apart.  First run: two \<open>Request\<close> calls on a new Protector start a \<open>process\<close>
  and a \<open>reprocess\<close> goroutine; the \<open>reprocess\<close> finds \<open>lastProcess\<close> still zero and goes on
  to \<open>process\<close> without waiting; then both scheduling passes run, each granting.  Second
  run: ten seconds after a first grant two \<open>Request\<close> calls start two \<open>reprocess\<close>
  goroutines; each finds the delay already over and clears the flag; then both scheduling
  passes run.
\<close>

theorem grants_closer_than_delayBetween:
  "map_option grantLog
     (run [CallRequest 1 [] ''a'', CallRequest 1 [] ''b'', Run 1 CaseLimit, Run 0 CaseLimit,
           Tick 1, Run 1 CaseLimit] sys10)
     = Some [(0, 63600000000000000000), (1, 63600000000000000001)]
   \<and> map_option grantLog
     (run [CallRequest 1 [] ''a'', Run 0 CaseLimit, Tick 10000000000,
           CallRequest 1 [] ''b'', CallRequest 1 [] ''c'', Run 2 CaseLimit, Run 3 CaseLimit,
           Run 2 CaseLimit, Tick 1, Run 3 CaseLimit] sys10)
     = Some [(0, 63600000000000000000), (1, 63600000010000000000), (2, 63600000010000000001)]
   \<and> delayBetween (prot sys10) = 500000000"
  by code_simp

section \<open>How a step moves tokens\<close>

lemma holders_append [simp]: "holders (ts @ us) = holders ts @ holders us"
  by (simp add: holders_def)

lemma holders_Nil [simp]: "holders [] = []"
  by (simp add: holders_def)

lemma holders_Cons [simp]: "holders (t # ts) = held t @ holders ts"
  by (simp add: holders_def)

lemma holders_update:
  "i < length ts \<Longrightarrow>
   mset (holders (ts[i := t])) + mset (held (ts ! i)) = mset (holders ts) + mset (held t)"
proof (induction ts arbitrary: i)
  case Nil
  then show ?case by simp
next
  case (Cons u ts)
  show ?case
  proof (cases i)
    case 0
    then show ?thesis by simp
  next
    case (Suc j)
    with Cons have "mset (holders (ts[j := t])) + mset (held (ts ! j)) = mset (holders ts) + mset (held t)"
      by simp
    then show ?thesis using Suc by (simp add: ac_simps)
  qed
qed

lemma holders_update_none:
  "i < length ts \<Longrightarrow> held (ts ! i) = [] \<Longrightarrow> mset (holders (ts[i := t])) = mset (holders ts) + mset (held t)"
  using holders_update [of i ts t] by simp

lemma holders_update_same:
  "i < length ts \<Longrightarrow> held (ts ! i) = held t \<Longrightarrow> mset (holders (ts[i := t])) = mset (holders ts)"
  using holders_update [of i ts t] by simp

lemma holders_update_drop:
  "i < length ts \<Longrightarrow> held (ts ! i) = [a] \<Longrightarrow> held t = [] \<Longrightarrow>
   add_mset a (mset (holders (ts[i := t]))) = mset (holders ts)"
  using holders_update [of i ts t] by simp

lemma map_update_same: "f y = f (xs ! i) \<Longrightarrow> map f (xs[i := y]) = map f xs"
  by (cases "i < length xs") (simp_all add: map_update list_update_same_conv list_update_beyond)

lemma process_moves:
  assumes "i < length (tasks s)" "tasks s ! i = GoProcess"
  shows "same_tokens s (set_task i (process s)) \<or> (\<exists>a. claimed a s (set_task i (process s)))"
  using assms
  by (cases "pending (prot s)")
     (auto simp: process_def process_granted_def set_task_def Let_def same_tokens_def claimed_def
        holders_update_none map_update_same list_update_append1
      split: prod.splits option.splits)


lemmas moves_simps = holders_update_none holders_update_same holders_update_drop
  list_update_append1 map_update_same

lemma run_task_moves:
  assumes "run_task i c s = Some s'"
  shows "same_tokens s s' \<or> (\<exists>a. claimed a s s') \<or> (\<exists>a. returned a s s')"
proof -
  from assms have i: "i < length (tasks s)"
    by (simp add: run_task_def split: if_splits)
  show ?thesis
  proof (cases "tasks s ! i")
    case GoProcess
    with assms i process_moves [of i s] show ?thesis
      by (auto simp: run_task_def split: if_splits)
  next
    case (ProcessSend a n)
    with assms i have "same_tokens s s'"
      by (auto simp: run_task_def process_resume_def process_granted_def set_task_def
            same_tokens_def moves_simps split: if_splits option.splits)
    then show ?thesis by simp
  next
    case GoReprocess
    with assms i have "same_tokens s s'"
      by (auto simp: run_task_def reprocess_def set_task_def Let_def
            same_tokens_def moves_simps split: if_splits)
    then show ?thesis by simp
  next
    case (ReprocessSleep w)
    with assms i have "same_tokens s s'"
      by (auto simp: run_task_def reprocess_wake_def set_task_def
            same_tokens_def moves_simps split: if_splits)
    then show ?thesis by simp
  next
    case (GoWatchdog a)
    with assms i have "same_tokens s s'"
      by (auto simp: run_task_def watchdog_start_def set_task_def
            same_tokens_def moves_simps split: if_splits)
    then show ?thesis by simp
  next
    case (WatchdogSelect a autoAt limitAt)
    with assms i have "same_tokens s s'"
      by (auto simp: run_task_def watchdog_select_def set_task_def Let_def
            same_tokens_def moves_simps split: if_splits select_case.splits option.splits)
    then show ?thesis by simp
  next
    case (WatchdogFinished a)
    with assms i have "same_tokens s s'"
      by (auto simp: run_task_def watchdog_finished_def finished_def set_task_def
            same_tokens_def moves_simps split: if_splits)
    then show ?thesis by simp
  next
    case (WatchdogReturn a)
    with assms i have "returned a s s'"
      by (auto simp: run_task_def watchdog_return_def set_task_def Let_def
            returned_def moves_simps split: if_splits)
    then show ?thesis by blast
  next
    case (WaitBlocked a)
    with assms i have "same_tokens s s'"
      by (auto simp: run_task_def waitUntilGranted_resume_def set_task_def
            same_tokens_def moves_simps split: if_splits option.splits)
    then show ?thesis by simp
  next
    case (TouchBlocked a)
    with assms i have "same_tokens s s'"
      by (auto simp: run_task_def touch_resume_def set_task_def
            same_tokens_def moves_simps split: if_splits option.splits)
    then show ?thesis by simp
  next
    case (ReleaseBlocked a)
    with assms i have "same_tokens s s'"
      by (auto simp: run_task_def release_resume_def set_task_def
            same_tokens_def moves_simps split: if_splits option.splits)
    then show ?thesis by simp
  next
    case Exited
    with assms i show ?thesis by (simp add: run_task_def)
  qed
qed

lemma step_moves:
  assumes "step e s = Some s'"
  shows "same_tokens s s' \<or> (\<exists>n ar u. e = CallRequest n ar u \<and> queued n s s') \<or>
         (\<exists>a. claimed a s s') \<or> (\<exists>a. returned a s s')"
proof (cases e)
  case (Tick d)
  with assms show ?thesis by (auto simp: step_def same_tokens_def split: if_splits)
next
  case (CallSetAvailabilityCallback cb)
  with assms show ?thesis
    by (auto simp: step_def SetAvailabilityCallback_def same_tokens_def split: if_splits)
next
  case (CallRequest n ar u)
  with assms show ?thesis
    by (auto simp: step_def Request_def Let_def same_tokens_def queued_def split: if_splits)
next
  case (CallWaitUntilGranted rc)
  with assms have "same_tokens s s'"
    by (auto simp: step_def WaitUntilGranted_def waitUntilGranted_def Let_def same_tokens_def
          moves_simps split: if_splits option.splits prod.splits outcome.splits)
  then show ?thesis by simp
next
  case (CallTouch rc)
  with assms have "same_tokens s s'"
    by (auto simp: step_def Touch_def touch_def same_tokens_def
          moves_simps split: if_splits option.splits prod.splits outcome.splits)
  then show ?thesis by simp
next
  case (CallRelease rc)
  with assms have "same_tokens s s'"
    by (auto simp: step_def Release_def release_def Let_def same_tokens_def
          moves_simps split: if_splits option.splits prod.splits outcome.splits)
  then show ?thesis by simp
next
  case (Run i c)
  with assms run_task_moves [of i c s s'] show ?thesis by (simp add: step_def)
qed

section \<open>Token accounting\<close>

lemma nth_numTokens_same:
  "map numTokens h' = map numTokens h \<Longrightarrow> a < length h \<Longrightarrow> numTokens (h' ! a) = numTokens (h ! a)"
  by (metis length_map nth_map)

lemma nth_numTokens_snoc:
  "map numTokens h' = map numTokens h @ [n] \<Longrightarrow> a < length h \<Longrightarrow>
   numTokens (h' ! a) = numTokens (h ! a)"
proof -
  assume m: "map numTokens h' = map numTokens h @ [n]" and a: "a < length h"
  from m have "length h' = Suc (length h)" by (metis length_append_singleton length_map)
  with a have "numTokens (h' ! a) = map numTokens h' ! a" by simp
  also have "\<dots> = map numTokens h ! a" using m a by (simp add: nth_append)
  finally show ?thesis using a by simp
qed

lemma tokens_of_cong:
  assumes "\<And>a. a \<in># M \<Longrightarrow> numTokens (heap s' ! a) = numTokens (heap s ! a)"
  shows "tokens_of s' M = tokens_of s M"
  unfolding tokens_of_def using assms by (auto intro!: arg_cong [where f = sum_mset] image_mset_cong)

lemma accounted_valid:
  assumes "accounted s"
  shows "a \<in> set (pending (prot s)) \<Longrightarrow> a < length (heap s)"
    and "a \<in># mset (holders (tasks s)) \<Longrightarrow> a < length (heap s)"
    and "a \<in> set (returnLog s) \<Longrightarrow> a < length (heap s)"
proof -
  let ?M = "mset (pending (prot s)) + mset (holders (tasks s)) + mset (returnLog s)"
  have eq: "?M = mset [0..<length (heap s)]" using assms by (simp add: accounted_def)
  have "a \<in># ?M \<Longrightarrow> a < length (heap s)" for a
    unfolding eq by simp
  then show "a \<in> set (pending (prot s)) \<Longrightarrow> a < length (heap s)"
    and "a \<in># mset (holders (tasks s)) \<Longrightarrow> a < length (heap s)"
    and "a \<in> set (returnLog s) \<Longrightarrow> a < length (heap s)"
    by auto
qed

lemma held_tokens_moves:
  assumes acc: "accounted s"
  shows "same_tokens s s' \<Longrightarrow>
           tokens_of s' (mset (holders (tasks s'))) = tokens_of s (mset (holders (tasks s)))"
    and "queued n s s' \<Longrightarrow>
           tokens_of s' (mset (holders (tasks s'))) = tokens_of s (mset (holders (tasks s)))"
    and "claimed a s s' \<Longrightarrow>
           tokens_of s' (mset (holders (tasks s')))
             = tokens_of s (mset (holders (tasks s))) + numTokens (heap s ! a)"
    and "returned a s s' \<Longrightarrow>
           tokens_of s' (mset (holders (tasks s')))
             = tokens_of s (mset (holders (tasks s))) - numTokens (heap s ! a)"
proof -
  note v = accounted_valid [OF acc]
  show "tokens_of s' (mset (holders (tasks s'))) = tokens_of s (mset (holders (tasks s)))"
    if "same_tokens s s'"
  proof -
    have "tokens_of s' (mset (holders (tasks s))) = tokens_of s (mset (holders (tasks s)))"
      using that v(2) by (intro tokens_of_cong nth_numTokens_same) (auto simp: same_tokens_def)
    with that show ?thesis by (simp add: same_tokens_def)
  qed
  show "tokens_of s' (mset (holders (tasks s'))) = tokens_of s (mset (holders (tasks s)))"
    if "queued n s s'"
  proof -
    have "tokens_of s' (mset (holders (tasks s))) = tokens_of s (mset (holders (tasks s)))"
      using that v(2)
      by (intro tokens_of_cong nth_numTokens_snoc [where n = n]) (auto simp: queued_def)
    with that show ?thesis by (simp add: queued_def)
  qed
  show "tokens_of s' (mset (holders (tasks s')))
          = tokens_of s (mset (holders (tasks s))) + numTokens (heap s ! a)"
    if "claimed a s s'"
  proof -
    from that have p: "pending (prot s) = a # pending (prot s')" by (simp add: claimed_def)
    then have a: "a < length (heap s)" using v(1) by simp
    have "a'' \<in># add_mset a (mset (holders (tasks s))) \<Longrightarrow> a'' < length (heap s)" for a''
      using a v(2) by auto
    then have "tokens_of s' (add_mset a (mset (holders (tasks s))))
        = tokens_of s (add_mset a (mset (holders (tasks s))))"
      using that by (intro tokens_of_cong nth_numTokens_same) (auto simp: claimed_def)
    with that show ?thesis by (simp add: claimed_def tokens_of_def)
  qed
  show "tokens_of s' (mset (holders (tasks s')))
          = tokens_of s (mset (holders (tasks s))) - numTokens (heap s ! a)"
    if "returned a s s'"
  proof -
    from that have h: "mset (holders (tasks s)) = add_mset a (mset (holders (tasks s')))"
      by (simp add: returned_def)
    have "tokens_of s' (mset (holders (tasks s'))) = tokens_of s (mset (holders (tasks s')))"
      using that v(2) h by (intro tokens_of_cong nth_numTokens_same) (auto simp: returned_def)
    then show ?thesis using h by (simp add: tokens_of_def)
  qed
qed

lemma accounted_step:
  assumes acc: "accounted s" and st: "step e s = Some s'"
  shows "accounted s'"
proof -
  note t = held_tokens_moves [OF acc]
  from acc have part: "mset (pending (prot s)) + mset (holders (tasks s)) + mset (returnLog s)
       = mset [0..<length (heap s)]"
    and sub: "submitLog s = [0..<length (heap s)]"
    and used: "usedTokens (prot s) = int64 (tokens_of s (mset (holders (tasks s))))"
    by (simp_all add: accounted_def)
  from step_moves [OF st]
  consider (same) "same_tokens s s'" | (queued) n where "queued n s s'"
    | (claimed) a where "claimed a s s'" | (returned) a where "returned a s s'"
    by blast
  then show ?thesis
  proof cases
    case same
    then have len: "length (heap s') = length (heap s)"
      by (metis same_tokens_def length_map)
    from same have "usedTokens (prot s') = usedTokens (prot s)"
      by (simp add: same_tokens_def)
    then have u: "usedTokens (prot s') = int64 (tokens_of s' (mset (holders (tasks s'))))"
      by (simp only: used t(1) [OF same])
    from same part sub len have "mset (pending (prot s')) + mset (holders (tasks s'))
          + mset (returnLog s') = mset [0..<length (heap s')]"
        and "submitLog s' = [0..<length (heap s')]"
      by (simp_all add: same_tokens_def)
    with u show ?thesis by (simp only: accounted_def simp_thms)
  next
    case queued
    then have len: "length (heap s') = Suc (length (heap s))"
      by (metis queued_def length_map length_append_singleton)
    from queued have "usedTokens (prot s') = usedTokens (prot s)"
      by (simp add: queued_def)
    then have u: "usedTokens (prot s') = int64 (tokens_of s' (mset (holders (tasks s'))))"
      by (simp only: used t(2) [OF queued])
    from queued part sub len have "mset (pending (prot s')) + mset (holders (tasks s'))
          + mset (returnLog s') = mset [0..<length (heap s')]"
        and "submitLog s' = [0..<length (heap s')]"
      by (simp_all add: queued_def)
    with u show ?thesis by (simp only: accounted_def simp_thms)
  next
    case claimed
    then have len: "length (heap s') = length (heap s)"
      by (metis claimed_def length_map)
    from claimed have p: "pending (prot s) = a # pending (prot s')" by (simp add: claimed_def)
    have "usedTokens (prot s') = int64 (usedTokens (prot s) + numTokens (heap s ! a))"
      using claimed by (simp add: claimed_def)
    then have u: "usedTokens (prot s') = int64 (tokens_of s' (mset (holders (tasks s'))))"
      by (simp only: used t(3) [OF claimed] int64_add_left)
    from claimed part sub len p have "mset (pending (prot s')) + mset (holders (tasks s'))
          + mset (returnLog s') = mset [0..<length (heap s')]"
        and "submitLog s' = [0..<length (heap s')]"
      by (simp_all add: claimed_def)
    with u show ?thesis by (simp only: accounted_def simp_thms)
  next
    case returned
    then have len: "length (heap s') = length (heap s)"
      by (metis returned_def length_map)
    from returned have h: "mset (holders (tasks s)) = add_mset a (mset (holders (tasks s')))"
      by (simp add: returned_def)
    have "usedTokens (prot s') = int64 (usedTokens (prot s) - numTokens (heap s ! a))"
      using returned by (simp add: returned_def)
    then have u: "usedTokens (prot s') = int64 (tokens_of s' (mset (holders (tasks s'))))"
      by (simp only: used t(4) [OF returned] int64_diff_left)
    from returned part sub len h have "mset (pending (prot s')) + mset (holders (tasks s'))
          + mset (returnLog s') = mset [0..<length (heap s')]"
        and "submitLog s' = [0..<length (heap s')]"
      by (simp_all add: returned_def)
    with u show ?thesis by (simp only: accounted_def simp_thms)
  qed
qed

lemma accounted_start: "accounted (start (New name delay maxSimultaneous timeout) t)"
  by (simp add: accounted_def start_def New_def tokens_of_def int64_def)

lemma accounted_run:
  "run evs (start (New name delay maxSimultaneous timeout) t) = Some s \<Longrightarrow> accounted s"
  using accounted_start accounted_step by (rule run_invariant)


lemma bounded_numTokens:
  "bounded s \<Longrightarrow> a < length (heap s) \<Longrightarrow> 0 \<le> numTokens (heap s ! a)"
  by (simp add: bounded_def)

lemma run_invariant_events:
  assumes "P s0" and "\<And>e s s'. e \<in> E \<Longrightarrow> P s \<Longrightarrow> step e s = Some s' \<Longrightarrow> P s'"
    and "run evs s0 = Some s" and "set evs \<subseteq> E"
  shows "P s"
  using assms(1,3,4)
proof (induction evs arbitrary: s0)
  case Nil
  then show ?case by simp
next
  case (Cons e evs)
  then show ?case using assms(2) by (auto split: option.splits)
qed

lemma tokens_of_nonneg:
  assumes "\<And>a. a \<in># M \<Longrightarrow> 0 \<le> numTokens (heap s ! a)"
  shows "0 \<le> tokens_of s M"
  using assms unfolding tokens_of_def by (induction M) auto

lemma bounded_held:
  assumes "bounded s"
  shows "0 \<le> tokens_of s (mset (holders (tasks s)))"
    and "usedTokens (prot s) = tokens_of s (mset (holders (tasks s)))"
proof -
  from assms have acc: "accounted s" by (simp add: bounded_def)
  show 0: "0 \<le> tokens_of s (mset (holders (tasks s)))"
    using bounded_numTokens [OF assms] accounted_valid(2) [OF acc] by (intro tokens_of_nonneg) auto
  from assms have "tokens_of s (mset (holders (tasks s))) < 9223372036854775808"
    by (simp add: bounded_def)
  with 0 have "int64 (tokens_of s (mset (holders (tasks s)))) = tokens_of s (mset (holders (tasks s)))"
    by (intro int64_id) simp_all
  with acc show "usedTokens (prot s) = tokens_of s (mset (holders (tasks s)))"
    by (simp add: accounted_def)
qed

lemma bounded_step:
  assumes b: "bounded s" and e: "nonneg_request e" and st: "step e s = Some s'"
  shows "bounded s'"
proof -
  from b have acc: "accounted s" and nn: "\<forall>n \<in> set (map numTokens (heap s)). 0 \<le> n"
    and le: "tokens_of s (mset (holders (tasks s))) \<le> maxTokens (prot s)"
    and mx: "maxTokens (prot s) \<le> 9223372036854775807"
    by (simp_all add: bounded_def)
  note v = accounted_valid [OF acc]
  note t = held_tokens_moves [OF acc]
  note h = bounded_held [OF b]
  have acc': "accounted s'" using acc st by (rule accounted_step)
  from step_moves [OF st]
  consider (same) "same_tokens s s'" | (queued) n ar u where "e = CallRequest n ar u" "queued n s s'"
    | (claimed) a where "claimed a s s'" | (returned) a where "returned a s s'"
    by blast
  then show ?thesis
  proof cases
    case same
    from same have "map numTokens (heap s') = map numTokens (heap s)"
        "maxTokens (prot s') = maxTokens (prot s)"
      by (simp_all add: same_tokens_def)
    with acc' le mx nn t(1) [OF same] show ?thesis by (simp add: bounded_def)
  next
    case queued
    with e have "0 \<le> n" by (simp add: nonneg_request_def)
    moreover from queued have "map numTokens (heap s') = map numTokens (heap s) @ [n]"
        "maxTokens (prot s') = maxTokens (prot s)"
      by (simp_all add: queued_def)
    ultimately show ?thesis
      using acc' le mx nn t(2) [OF queued(2)] by (simp add: bounded_def)
  next
    case claimed
    let ?T = "tokens_of s (mset (holders (tasks s)))"
    let ?n = "numTokens (heap s ! a)"
    from claimed have "a \<in> set (pending (prot s))" by (simp add: claimed_def)
    then have n0: "0 \<le> ?n" using v(1) bounded_numTokens [OF b] by simp
    from claimed h(2) have ne: "?T \<noteq> maxTokens (prot s)"
      and g: "1 < ?n \<longrightarrow> ?n \<le> int64 (maxTokens (prot s) - ?T)"
      by (simp_all add: claimed_def)
    have "int64 (maxTokens (prot s) - ?T) = maxTokens (prot s) - ?T"
      using h(1) le mx by (intro int64_id) simp_all
    with g ne le n0 have "?T + ?n \<le> maxTokens (prot s)" by auto
    moreover from claimed have "map numTokens (heap s') = map numTokens (heap s)"
        "maxTokens (prot s') = maxTokens (prot s)"
      by (simp_all add: claimed_def)
    ultimately show ?thesis
      using acc' mx nn t(3) [OF claimed] by (simp add: bounded_def)
  next
    case returned
    from returned have "a \<in># mset (holders (tasks s))"
      by (metis returned_def union_single_eq_member)
    then have "0 \<le> numTokens (heap s ! a)" using v(2) bounded_numTokens [OF b] by simp
    moreover from returned have "map numTokens (heap s') = map numTokens (heap s)"
        "maxTokens (prot s') = maxTokens (prot s)"
      by (simp_all add: returned_def)
    ultimately show ?thesis
      using acc' le mx nn t(4) [OF returned] by (simp add: bounded_def)
  qed
qed

text \<open>On a Protector created with \<open>0 \<le> maxSimultaneous\<close> (a Go \<open>int\<close>, so at most \<open>2\<^sup>6\<^sup>3 - 1\<close>), as
  long as no \<open>Request\<close> asks for a negative number of tokens, \<open>0 \<le> usedTokens \<le> maxTokens\<close>
  holds after every interleaving.\<close>

lemma usedTokens_bounds:
  assumes "run evs (start (New name delay maxSimultaneous timeout) t) = Some s"
    and "0 \<le> maxSimultaneous" and "maxSimultaneous \<le> 9223372036854775807"
    and "list_all nonneg_request evs"
  shows "0 \<le> usedTokens (prot s) \<and> usedTokens (prot s) \<le> maxTokens (prot s)"
proof -
  have b0: "bounded (start (New name delay maxSimultaneous timeout) t)"
    using assms(2,3) accounted_start [of name delay maxSimultaneous timeout t]
    by (simp add: bounded_def) (simp add: start_def New_def tokens_of_def)
  have sub: "set evs \<subseteq> {e. nonneg_request e}"
    using assms(4) by (auto simp: list_all_iff)
  have "bounded s"
  proof (rule run_invariant_events [where P = bounded and E = "{e. nonneg_request e}"])
    show "bounded (start (New name delay maxSimultaneous timeout) t)" by (fact b0)
    show "bounded s'" if "e \<in> {e. nonneg_request e}" "bounded s" "step e s = Some s'" for e s s'
      using that bounded_step [of s e s'] by simp
    show "run evs (start (New name delay maxSimultaneous timeout) t) = Some s" by fact
    show "set evs \<subseteq> {e. nonneg_request e}" by (fact sub)
  qed
  then show ?thesis using bounded_held [of s] by (simp add: bounded_def)
qed

section \<open>Release after the watchdog has finished\<close>

lemma nth_update_at: "a < length xs \<Longrightarrow> (xs[b := y]) ! a = (if b = a then y else xs ! a)"
  by auto



















section \<open>Waiting after the grant\<close>

lemma in_update_D: "t' \<in> set (xs[i := t]) \<Longrightarrow> t' = t \<or> t' \<in> set xs"
  using set_update_subset_insert [of xs i t] by auto

lemma process_sound:
  assumes "sound s"
  shows "sound (set_task i (process s))"
proof (cases "pending (prot s)")
  case Nil
  with assms show ?thesis
    by (auto simp: sound_def process_def set_task_def Let_def dest!: in_update_D)
next
  case (Cons a rest)
  with assms have g: "grantedCh (heap s ! a) = make_chan 1" and a: "a < length (heap s)"
    and ar: "a \<notin> set rest" "distinct rest"
    by (auto simp: sound_def)
  then have snd: "send (grantedCh (heap s ! a)) True = Some \<lparr>cap = 1, buf = [True]\<rparr>"
    by (simp add: send_def make_chan_def)
  show ?thesis
    using assms Cons snd ar a
    by (auto simp: sound_def process_def process_granted_def set_task_def Let_def nth_update_at
        split: prod.splits dest!: in_update_D)
qed

lemma sound_no_ProcessSend: "sound s \<Longrightarrow> i < length (tasks s) \<Longrightarrow> tasks s ! i \<noteq> ProcessSend a n"
  unfolding sound_def by (metis nth_mem)

lemma sound_WaitBlocked: "sound s \<Longrightarrow> i < length (tasks s) \<Longrightarrow> tasks s ! i = WaitBlocked a \<Longrightarrow> a < length (heap s)"
  unfolding sound_def by (metis nth_mem)

lemma run_task_sound:
  assumes r: "run_task i c s = Some s'" and w: "sound s"
  shows "sound s'"
proof -
  from r have i: "i < length (tasks s)"
    by (simp add: run_task_def split: if_splits)
  show ?thesis
  proof (cases "tasks s ! i")
    case GoProcess
    with r process_sound [OF w, of i] show ?thesis
      by (auto simp: run_task_def split: if_splits)
  next
    case (ProcessSend a n)
    with sound_no_ProcessSend [OF w i, of a n] show ?thesis by simp
  next
    case GoReprocess
    with r w show ?thesis
      by (auto simp: run_task_def reprocess_def set_task_def Let_def sound_def
          split: if_splits dest!: in_update_D)
  next
    case (ReprocessSleep wake)
    with r w show ?thesis
      by (auto simp: run_task_def reprocess_wake_def set_task_def sound_def
          split: if_splits dest!: in_update_D)
  next
    case (GoWatchdog a)
    with r w show ?thesis
      by (auto simp: run_task_def watchdog_start_def set_task_def sound_def
          split: if_splits dest!: in_update_D)
  next
    case (WatchdogSelect a autoAt limitAt)
    with r w show ?thesis
      by (auto simp: run_task_def watchdog_select_def set_task_def Let_def sound_def nth_update_at
          split: if_splits select_case.splits option.splits dest!: in_update_D)
  next
    case (WatchdogFinished a)
    with r w show ?thesis
      by (auto simp: run_task_def watchdog_finished_def finished_def set_task_def sound_def
            nth_update_at
          split: if_splits dest!: in_update_D)
  next
    case (WatchdogReturn a)
    with r w show ?thesis
      by (auto simp: run_task_def watchdog_return_def set_task_def Let_def sound_def
          split: if_splits dest!: in_update_D)
  next
    case (WaitBlocked a)
    with r w sound_WaitBlocked [OF w i, of a] show ?thesis
      by (auto simp: run_task_def waitUntilGranted_resume_def recv_def make_chan_def
            set_task_def sound_def nth_update_at
          split: if_splits option.splits list.splits dest!: in_update_D)
  next
    case (TouchBlocked a)
    with r w show ?thesis
      by (auto simp: run_task_def touch_resume_def set_task_def sound_def nth_update_at
          split: if_splits option.splits dest!: in_update_D)
  next
    case (ReleaseBlocked a)
    with r w show ?thesis
      by (auto simp: run_task_def release_resume_def set_task_def sound_def nth_update_at
          split: if_splits option.splits dest!: in_update_D)
  next
    case Exited
    with r i show ?thesis by (simp add: run_task_def)
  qed
qed

lemma step_sound:
  assumes w: "sound s" and st: "step e s = Some s'"
  shows "sound s'"
proof (cases e)
  case (Tick d)
  with st w show ?thesis by (auto simp: step_def sound_def split: if_splits)
next
  case (CallSetAvailabilityCallback cb)
  with st w show ?thesis
    by (auto simp: step_def SetAvailabilityCallback_def sound_def split: if_splits)
next
  case (CallRequest n ar u)
  with st w show ?thesis
    by (auto simp: step_def Request_def Let_def sound_def nth_append less_Suc_eq
        split: if_splits)
next
  case (CallWaitUntilGranted rc)
  with st w show ?thesis
    by (auto simp: step_def WaitUntilGranted_def waitUntilGranted_def recv_def make_chan_def
          Let_def sound_def nth_update_at
        split: if_splits option.splits prod.splits outcome.splits list.splits)
next
  case (CallTouch rc)
  with st w show ?thesis
    by (auto simp: step_def Touch_def touch_def sound_def nth_update_at
        split: if_splits option.splits prod.splits outcome.splits)
next
  case (CallRelease rc)
  with st w show ?thesis
    by (auto simp: step_def Release_def release_def Let_def sound_def nth_update_at
        split: if_splits option.splits prod.splits outcome.splits)
next
  case (Run i c)
  with st w run_task_sound [of i c s s'] show ?thesis by (simp add: step_def)
qed

lemma sound_start: "sound (start (New name delay maxSimultaneous timeout) t)"
  by (simp add: sound_def start_def New_def)

lemma process_unobserved:
  assumes w: "sound s" and u: "unobserved a uuid s"
  shows "unobserved a uuid (set_task i (process s))"
proof (cases "pending (prot s)")
  case Nil
  with u show ?thesis
    by (auto simp: unobserved_def process_def set_task_def Let_def dest!: in_update_D)
next
  case (Cons b rest)
  with w have g: "grantedCh (heap s ! b) = make_chan 1" and b: "b < length (heap s)"
    and br: "b \<notin> set rest"
    by (auto simp: sound_def)
  then have snd: "send (grantedCh (heap s ! b)) True = Some \<lparr>cap = 1, buf = [True]\<rparr>"
    by (simp add: send_def make_chan_def)
  show ?thesis
    using u Cons snd br b
    by (auto simp: unobserved_def process_def process_granted_def set_task_def Let_def
          nth_update_at
        split: prod.splits dest!: in_update_D)
qed

lemma unobserved_no_WaitBlocked:
  "unobserved a uuid s \<Longrightarrow> i < length (tasks s) \<Longrightarrow> tasks s ! i \<noteq> WaitBlocked a"
  unfolding unobserved_def by (metis nth_mem)

lemma run_task_unobserved:
  assumes r: "run_task i c s = Some s'" and w: "sound s" and u: "unobserved a uuid s"
  shows "unobserved a uuid s'"
proof -
  from r have i: "i < length (tasks s)"
    by (simp add: run_task_def split: if_splits)
  show ?thesis
  proof (cases "tasks s ! i")
    case GoProcess
    with r process_unobserved [OF w u, of i] show ?thesis
      by (auto simp: run_task_def split: if_splits)
  next
    case (ProcessSend b n)
    with sound_no_ProcessSend [OF w i, of b n] show ?thesis by simp
  next
    case GoReprocess
    with r u show ?thesis
      by (auto simp: run_task_def reprocess_def set_task_def Let_def unobserved_def
          split: if_splits dest!: in_update_D)
  next
    case (ReprocessSleep wake)
    with r u show ?thesis
      by (auto simp: run_task_def reprocess_wake_def set_task_def unobserved_def
          split: if_splits dest!: in_update_D)
  next
    case (GoWatchdog b)
    with r u show ?thesis
      by (auto simp: run_task_def watchdog_start_def set_task_def unobserved_def
          split: if_splits dest!: in_update_D)
  next
    case (WatchdogSelect b autoAt limitAt)
    with r u show ?thesis
      by (auto simp: run_task_def watchdog_select_def set_task_def Let_def unobserved_def
            nth_update_at
          split: if_splits select_case.splits option.splits dest!: in_update_D)
  next
    case (WatchdogFinished b)
    with r u show ?thesis
      by (auto simp: run_task_def watchdog_finished_def finished_def set_task_def unobserved_def
            nth_update_at
          split: if_splits dest!: in_update_D)
  next
    case (WatchdogReturn b)
    with r u show ?thesis
      by (auto simp: run_task_def watchdog_return_def set_task_def Let_def unobserved_def
          split: if_splits dest!: in_update_D)
  next
    case (WaitBlocked b)
    with r u unobserved_no_WaitBlocked [OF u i] show ?thesis
      by (auto simp: run_task_def waitUntilGranted_resume_def
            set_task_def unobserved_def nth_update_at
          split: if_splits option.splits dest!: in_update_D)
  next
    case (TouchBlocked b)
    with r u show ?thesis
      by (auto simp: run_task_def touch_resume_def set_task_def unobserved_def nth_update_at
          split: if_splits option.splits dest!: in_update_D)
  next
    case (ReleaseBlocked b)
    with r u show ?thesis
      by (auto simp: run_task_def release_resume_def set_task_def unobserved_def nth_update_at
          split: if_splits option.splits dest!: in_update_D)
  next
    case Exited
    with r i show ?thesis by (simp add: run_task_def)
  qed
qed

lemma step_unobserved:
  assumes w: "sound s" and u: "unobserved a uuid s" and e: "e \<noteq> CallWaitUntilGranted uuid"
    and st: "step e s = Some s'"
  shows "unobserved a uuid s'"
proof (cases e)
  case (Tick d)
  with st u show ?thesis by (auto simp: step_def unobserved_def split: if_splits)
next
  case (CallSetAvailabilityCallback cb)
  with st u show ?thesis
    by (auto simp: step_def SetAvailabilityCallback_def unobserved_def split: if_splits)
next
  case (CallRequest n ar u')
  with st u show ?thesis
    by (auto simp: step_def Request_def Let_def unobserved_def nth_append
        split: if_splits)
next
  case (CallWaitUntilGranted rc)
  with e have "rc \<noteq> uuid" by simp
  with CallWaitUntilGranted st u show ?thesis
    by (auto simp: step_def WaitUntilGranted_def waitUntilGranted_def
          Let_def unobserved_def nth_update_at
        split: if_splits option.splits prod.splits outcome.splits)
next
  case (CallTouch rc)
  with st u show ?thesis
    by (auto simp: step_def Touch_def touch_def unobserved_def nth_update_at
        split: if_splits option.splits prod.splits outcome.splits)
next
  case (CallRelease rc)
  with st u show ?thesis
    by (auto simp: step_def Release_def release_def Let_def unobserved_def nth_update_at
        split: if_splits option.splits prod.splits outcome.splits)
next
  case (Run i c)
  with st w u run_task_unobserved [of i c s s' a uuid] show ?thesis by (simp add: step_def)
qed

lemma Request_unobserved:
  assumes w: "sound s0" and req: "Request n ar uuid s0 = Some (Inr uuid, s1)"
  shows "unobserved (length (heap s0)) uuid s1"
proof -
  from w have 1: "WaitBlocked (length (heap s0)) \<notin> set (tasks s0)"
    and 2: "\<And>rc. requests (prot s0) rc \<noteq> Some (length (heap s0))"
    by (auto simp: sound_def)
  from req 1 2 show ?thesis
    by (auto simp: Request_def Let_def unobserved_def split: if_splits)
qed

lemma granted_not_pending:
  assumes "fifo s" and "accounted s" and "a \<in> set (map fst (grantLog s))"
  shows "a \<notin> set (pending (prot s))"
proof -
  from assms(1,2) have "distinct (map fst (grantLog s) @ pending (prot s))"
    by (metis fifo_def accounted_def distinct_upt)
  with assms(3) show ?thesis by auto
qed

text \<open>
  C10.  A request is created by \<open>Request\<close>; any interleaving follows in which
  \<open>WaitUntilGranted\<close> is not called with its receipt.  If by then a scheduling pass has
  granted the request, no watchdog branch has marked it done and the receipt still names
  it, then \<open>WaitUntilGranted\<close> returns \<open>true\<close> at once: the grant signal was kept in the
  one-slot buffer of \<open>grantedCh\<close>, and the call takes it out and marks the request active.
\<close>

theorem WaitUntilGranted_after_grant:
  assumes reach: "run evs0 (start (New name delay maxSimultaneous timeout) t) = Some s0"
    and req: "Request n ar uuid s0 = Some (Inr uuid, s1)"
    and later: "run evs s1 = Some s2"
    and nowait: "CallWaitUntilGranted uuid \<notin> set evs"
    and granted: "length (heap s0) \<in> set (map fst (grantLog s2))"
    and notdone: "\<not> done_r (heap s2 ! length (heap s0))"
    and known: "requests (prot s2) uuid = Some (length (heap s0))"
  shows "WaitUntilGranted uuid s2 =
           Some (Return True,
                 s2\<lparr>heap := (heap s2)[length (heap s0) :=
                      (heap s2 ! length (heap s0))\<lparr>active := True,
                         grantedCh := \<lparr>cap = 1, buf = []\<rparr>\<rparr>]\<rparr>)"
proof -
  let ?a = "length (heap s0)"
  let ?P = "\<lambda>s. sound s \<and> fifo s \<and> accounted s"
  have p0: "?P s0"
  proof (rule run_invariant [where P = ?P])
    show "?P (start (New name delay maxSimultaneous timeout) t)"
      by (simp add: sound_start start_fifo accounted_start)
    show "?P s'" if "?P s" "step e s = Some s'" for e s s'
      using that step_sound step_fifo accounted_step by blast
    show "run evs0 (start (New name delay maxSimultaneous timeout) t) = Some s0"
      by (fact reach)
  qed
  from req have st: "step (CallRequest n ar uuid) s0 = Some s1"
    by (simp add: step_def)
  from p0 st have p1: "?P s1"
    using step_sound step_fifo accounted_step by blast
  from p0 req have u1: "unobserved ?a uuid s1"
    using Request_unobserved by blast
  let ?Q = "\<lambda>s. ?P s \<and> unobserved ?a uuid s"
  have "?Q s2"
  proof (rule run_invariant_events [where P = ?Q and E = "{e. e \<noteq> CallWaitUntilGranted uuid}"])
    show "?Q s1" using p1 u1 by simp
    show "?Q s'" if "e \<in> {e. e \<noteq> CallWaitUntilGranted uuid}" "?Q s" "step e s = Some s'"
      for e s s'
      using that step_sound step_fifo accounted_step step_unobserved by blast
    show "run evs s1 = Some s2" by (fact later)
    show "set evs \<subseteq> {e. e \<noteq> CallWaitUntilGranted uuid}" using nowait by auto
  qed
  then have q: "sound s2" "fifo s2" "accounted s2" "unobserved ?a uuid s2"
    by simp_all
  from q(2,3) granted have "?a \<notin> set (pending (prot s2))"
    by (rule granted_not_pending)
  with q(4) have g: "grantedCh (heap s2 ! ?a) = \<lparr>cap = 1, buf = [True]\<rparr>"
    and na: "\<not> active (heap s2 ! ?a)" and nm: "\<not> mu_r (heap s2 ! ?a)"
    by (simp_all add: unobserved_def)
  from q(1) have "\<not> mu (prot s2)" by (simp add: sound_def)
  with g na nm notdone known show ?thesis
    by (simp add: WaitUntilGranted_def waitUntilGranted_def recv_def Let_def)
qed

theorem WaitUntilGranted_after_grant_witness:
  "\<exists>s1 s2 s3. Request 1 [] ''a'' sys3 = Some (Inr ''a'', s1)
     \<and> run [Run 0 CaseLimit, Run 1 CaseLimit, CallTouch ''a'', Tick 5000000000] s1 = Some s2
     \<and> map fst (grantLog s2) = [0]
     \<and> WaitUntilGranted ''a'' s2 = Some (Return True, s3)"
proof -
  let ?evs = "[Run 0 CaseLimit, Run 1 CaseLimit, CallTouch ''a'', Tick 5000000000]"
  have r0: "run [] (start (New ''r'' 0 3 (10000 * Millisecond)) t2016) = Some sys3"
    by (simp add: sys3_def)
  have "3 \<le> maxTokens (prot sys3)" "\<not> mu (prot sys3)" "length (heap sys3) = 0"
    by (simp_all add: sys3_def start_def New_def)
  with Request_accept [of 1 sys3 "[]" "''a''"]
  obtain s1 where s1: "Request 1 [] ''a'' sys3 = Some (Inr ''a'', s1)" and h0: "length (heap sys3) = 0"
    by auto
  have "map_option (\<lambda>s. (map fst (grantLog s), done_r (heap s ! 0), requests (prot s) ''a''))
          (Option.bind (map_option snd (Request 1 [] ''a'' sys3)) (run ?evs))
        = Some ([0], False, Some 0)"
    by code_simp
  then obtain s2 where s2: "run ?evs s1 = Some s2" "map fst (grantLog s2) = [0]"
      "\<not> done_r (heap s2 ! 0)" "requests (prot s2) ''a'' = Some 0"
    unfolding s1 by auto
  have "CallWaitUntilGranted ''a'' \<notin> set ?evs" by simp
  from WaitUntilGranted_after_grant [OF r0 s1 s2(1) this] s2 h0
  obtain s3 where s3: "WaitUntilGranted ''a'' s2 = Some (Return True, s3)" by simp
  show ?thesis
    using s1 s2(1,2) s3
    by (intro exI [of _ s1] exI [of _ s2] exI [of _ s3] conjI) assumption+
qed

end
